theory Spec2Isabelle
  imports Main
begin

section \<open>Strings\<close>

text \<open>
  JavaScript strings are modelled as \<^typ>\<open>string\<close>: a list of code units, here
  restricted to the range U+0000..U+00FF that \<^typ>\<open>char\<close> can hold.
  \<open>str_includes\<close> is \<open>String.prototype.includes\<close>.
\<close>

definition startsWith :: "string \<Rightarrow> string \<Rightarrow> bool" where
  "startsWith s p = (take (length p) s = p)"

fun str_includes :: "string \<Rightarrow> string \<Rightarrow> bool" where
  "str_includes [] p = (p = [])"
| "str_includes (c # cs) p = (startsWith (c # cs) p \<or> str_includes cs p)"

section \<open>The retry executor\<close>

text \<open>
  The effects of the service are kept in an explicit world: how many calls the remote
  collaborator has received, the durations handed to \<open>sleep\<close> (oldest first), and the
  messages handed to the \<open>onProgress\<close> observer (oldest first).
\<close>

record world =
  calls :: nat
  slept :: "int list"
  progress :: "string list"

definition sleep :: "int \<Rightarrow> world \<Rightarrow> world" where
  "sleep ms w = w\<lparr>slept := slept w @ [ms]\<rparr>"

definition called :: "world \<Rightarrow> world" where
  "called w = w\<lparr>calls := Suc (calls w)\<rparr>"

text \<open>
  What a promise of the service can reject with: the collaborator's own error value, the
  \<open>TypeError\<close> raised by \<open>errorMessage.includes\<close> when \<open>JSON.stringify(err)\<close> gave no
  string, or an \<open>Error\<close> object created by the service with the given message.
\<close>

datatype 'e thrown = Rejected 'e | TypeError | Error string

definition isRateLimitError :: "string \<Rightarrow> bool" where
  "isRateLimitError errorMessage =
     (str_includes errorMessage ''429'' \<or> str_includes errorMessage ''503''
      \<or> str_includes errorMessage ''RESOURCE_EXHAUSTED'' \<or> str_includes errorMessage ''UNAVAILABLE'')"

text \<open>
  The optional \<open>onRetry\<close> observer belongs to the caller: its effect is a change of the
  caller's progress log, and it has no access to the executor's counters.
\<close>

type_synonym observer = "int \<Rightarrow> int \<Rightarrow> string list \<Rightarrow> string list"

definition notify :: "observer option \<Rightarrow> int \<Rightarrow> int \<Rightarrow> world \<Rightarrow> world" where
  "notify onRetry attempt delay w =
     (case onRetry of None \<Rightarrow> w | Some f \<Rightarrow> w\<lparr>progress := f attempt delay (progress w)\<rparr>)"

text \<open>
  \<open>withRetry\<close>: the operation \<open>fn\<close> is a script, \<open>fn n\<close> being the outcome of the call made
  when the collaborator has already received \<open>n\<close> calls. \<open>JSON_stringify\<close> is the platform's
  serializer on error values (\<open>None\<close>: it produced no string). The loop variables
  \<open>attempt\<close> and \<open>delay\<close> are arguments of the recursion. Attempt counts and delays in
  milliseconds are integers.
\<close>

function withRetry_loop ::
  "(nat \<Rightarrow> 'e + 'a) \<Rightarrow> ('e \<Rightarrow> string option) \<Rightarrow> int \<Rightarrow> observer option
     \<Rightarrow> int \<Rightarrow> int \<Rightarrow> world \<Rightarrow> ('e thrown + 'a) \<times> world" where
  "withRetry_loop fn JSON_stringify maxAttempts onRetry attempt delay w =
     (if attempt < maxAttempts then
        (case fn (calls w) of
           Inr r \<Rightarrow> (Inr r, called w)
         | Inl err \<Rightarrow>
             (case JSON_stringify err of
                None \<Rightarrow> (Inl TypeError, called w)
              | Some errorMessage \<Rightarrow>
                  if isRateLimitError errorMessage \<and> attempt + 1 < maxAttempts
                  then withRetry_loop fn JSON_stringify maxAttempts onRetry (attempt + 1) (delay * 2)
                         (sleep delay (notify onRetry (attempt + 1) delay (called w)))
                  else (Inl (Rejected err), called w)))
      else (Inl (Error ''Exceeded retry attempts.''), w))"
  by pat_completeness auto
termination
  by (relation "measure (\<lambda>(fn, js, maxAttempts, onRetry, attempt, delay, w). nat (maxAttempts - attempt))") auto

declare withRetry_loop.simps [simp del]

definition withRetry ::
  "(nat \<Rightarrow> 'e + 'a) \<Rightarrow> ('e \<Rightarrow> string option) \<Rightarrow> int \<Rightarrow> int \<Rightarrow> observer option
     \<Rightarrow> world \<Rightarrow> ('e thrown + 'a) \<times> world" where
  "withRetry fn JSON_stringify maxAttempts initialDelay onRetry w =
     withRetry_loop fn JSON_stringify maxAttempts onRetry 0 initialDelay w"

text \<open>
  The world after \<open>k\<close> failed attempts that were retried: each one is counted, reported to
  the observer with the attempt number and the delay, and slept on; the delay doubles.
\<close>

fun retry_world :: "observer option \<Rightarrow> int \<Rightarrow> int \<Rightarrow> nat \<Rightarrow> world \<Rightarrow> world" where
  "retry_world onRetry attempt delay 0 w = w"
| "retry_world onRetry attempt delay (Suc k) w =
     retry_world onRetry (attempt + 1) (delay * 2) k (sleep delay (notify onRetry (attempt + 1) delay (called w)))"

text \<open>
  The \<open>n\<close>-th call of the script fails with an error whose serialized form carries one of
  the markers of a rate limit or of a temporary unavailability.
\<close>

definition transient_at :: "(nat \<Rightarrow> 'e + 'a) \<Rightarrow> ('e \<Rightarrow> string option) \<Rightarrow> nat \<Rightarrow> bool" where
  "transient_at fn JSON_stringify n =
     (case fn n of Inr r \<Rightarrow> False
      | Inl err \<Rightarrow> (case JSON_stringify err of None \<Rightarrow> False | Some m \<Rightarrow> isRateLimitError m))"

text \<open>
  For concrete runs: a fresh world, and the serializer of errors that are plain strings
  (the string in double quotes).
\<close>

definition w0 :: world where
  "w0 = \<lparr>calls = 0, slept = [], progress = []\<rparr>"

definition stringify_plain :: "string \<Rightarrow> string option" where
  "stringify_plain e = Some (''\"'' @ e @ ''\"'')"


section \<open>JSON values, \<open>JSON.stringify\<close> and \<open>JSON.parse\<close>\<close>

text \<open>
  The platform's JSON functions, as far as \<open>parseJsonFromText\<close> depends on them.
  A number is kept as its numeral (the text of the literal): the model never rounds to a
  double, so two numerals of the same value are different model values, and \<open>stringify\<close>
  is the platform's only on numerals in the form the platform prints. An object is the
  list of its members in the order of the text. Strings hold code units up to U+00FF; an
  escape \<open>\uXXXX\<close> above that is outside the model and is refused.
\<close>

datatype json =
    JNull
  | JBool bool
  | JNum string
  | JStr string
  | JArr "json list"
  | JObj "(string \<times> json) list"

definition is_digit :: "char \<Rightarrow> bool" where
  "is_digit c = (let n = (of_char c :: nat) in 48 \<le> n \<and> n \<le> 57)"

definition hex_char :: "nat \<Rightarrow> char" where
  "hex_char n = (if n < 10 then char_of (48 + n) else char_of (87 + n))"

definition hex_val :: "char \<Rightarrow> nat option" where
  "hex_val c =
     (let n = (of_char c :: nat) in
      if 48 \<le> n \<and> n \<le> 57 then Some (n - 48)
      else if 97 \<le> n \<and> n \<le> 102 then Some (n - 87)
      else if 65 \<le> n \<and> n \<le> 70 then Some (n - 55)
      else None)"

text \<open>\<open>QuoteJSONString\<close>: how \<open>JSON.stringify\<close> writes a string.\<close>

definition escape_char :: "char \<Rightarrow> string" where
  "escape_char c =
     (let n = (of_char c :: nat) in
      if c = CHR 0x22 then [CHR 0x5C, CHR 0x22]
      else if c = CHR 0x5C then [CHR 0x5C, CHR 0x5C]
      else if n = 8 then [CHR 0x5C, CHR ''b'']
      else if n = 12 then [CHR 0x5C, CHR ''f'']
      else if n = 10 then [CHR 0x5C, CHR ''n'']
      else if n = 13 then [CHR 0x5C, CHR ''r'']
      else if n = 9 then [CHR 0x5C, CHR ''t'']
      else if n < 32 then [CHR 0x5C, CHR ''u'', CHR ''0'', CHR ''0'', hex_char (n div 16), hex_char (n mod 16)]
      else [c])"

definition QuoteJSONString :: "string \<Rightarrow> string" where
  "QuoteJSONString s = CHR 0x22 # concat (map escape_char s) @ [CHR 0x22]"

fun stringify :: "json \<Rightarrow> string"
  and stringify_elements :: "json list \<Rightarrow> string"
  and stringify_members :: "(string \<times> json) list \<Rightarrow> string" where
  "stringify JNull = ''null''"
| "stringify (JBool b) = (if b then ''true'' else ''false'')"
| "stringify (JNum l) = l"
| "stringify (JStr s) = QuoteJSONString s"
| "stringify (JArr vs) = CHR ''['' # stringify_elements vs"
| "stringify (JObj ms) = CHR ''{'' # stringify_members ms"
| "stringify_elements [] = '']''"
| "stringify_elements [v] = stringify v @ '']''"
| "stringify_elements (v # u # vs) = stringify v @ '','' @ stringify_elements (u # vs)"
| "stringify_members [] = ''}''"
| "stringify_members [(k, v)] = QuoteJSONString k @ '':'' @ stringify v @ ''}''"
| "stringify_members ((k, v) # m # ms) =
     QuoteJSONString k @ '':'' @ stringify v @ '','' @ stringify_members (m # ms)"

text \<open>The JSON grammar: white space, numerals, string bodies.\<close>

definition json_space :: "char \<Rightarrow> bool" where
  "json_space c = (let n = (of_char c :: nat) in n = 9 \<or> n = 10 \<or> n = 13 \<or> n = 32)"

definition skip_ws :: "string \<Rightarrow> string" where
  "skip_ws s = dropWhile json_space s"

definition numchar :: "char \<Rightarrow> bool" where
  "numchar c = (is_digit c \<or> c = CHR ''-'' \<or> c = CHR ''+'' \<or> c = CHR ''.'' \<or> c = CHR ''e'' \<or> c = CHR ''E'')"

definition exponent_ok :: "string \<Rightarrow> bool" where
  "exponent_ok r =
     (case r of [] \<Rightarrow> True
      | c # r1 \<Rightarrow> (c = CHR ''e'' \<or> c = CHR ''E'')
          \<and> (let r2 = (case r1 of [] \<Rightarrow> r1 | s # t \<Rightarrow> if s = CHR ''+'' \<or> s = CHR ''-'' then t else r1)
             in r2 \<noteq> [] \<and> list_all is_digit r2))"

definition fraction_ok :: "string \<Rightarrow> bool" where
  "fraction_ok r =
     (case r of [] \<Rightarrow> True
      | c # r1 \<Rightarrow> if c = CHR ''.''
          then takeWhile is_digit r1 \<noteq> [] \<and> exponent_ok (dropWhile is_digit r1)
          else exponent_ok r)"

definition json_number :: "string \<Rightarrow> bool" where
  "json_number l =
     (let l1 = (case l of [] \<Rightarrow> l | c # r \<Rightarrow> if c = CHR ''-'' then r else l);
          ip = takeWhile is_digit l1
      in ip \<noteq> [] \<and> (length ip = 1 \<or> hd ip \<noteq> CHR ''0'') \<and> fraction_ok (dropWhile is_digit l1))"

text \<open>
  A numeral is the longest run of numeral characters; a value is never followed by one of
  them in a JSON text, so reading the whole run and checking it against the grammar
  accepts what the grammar accepts.
\<close>

definition parse_number :: "string \<Rightarrow> (json \<times> string) option" where
  "parse_number s =
     (let l = takeWhile numchar s in
      if json_number l then Some (JNum l, dropWhile numchar s) else None)"

definition unescape :: "char \<Rightarrow> char option" where
  "unescape e =
     (if e = CHR 0x22 then Some (CHR 0x22)
      else if e = CHR 0x5C then Some (CHR 0x5C)
      else if e = CHR ''/'' then Some (CHR ''/'')
      else if e = CHR ''b'' then Some (char_of (8 :: nat))
      else if e = CHR ''f'' then Some (char_of (12 :: nat))
      else if e = CHR ''n'' then Some (char_of (10 :: nat))
      else if e = CHR ''r'' then Some (char_of (13 :: nat))
      else if e = CHR ''t'' then Some (char_of (9 :: nat))
      else None)"

definition hex4 :: "char \<Rightarrow> char \<Rightarrow> char \<Rightarrow> char \<Rightarrow> char option" where
  "hex4 a b c d =
     (case (hex_val a, hex_val b, hex_val c, hex_val d) of
        (Some x, Some y, Some z, Some u) \<Rightarrow>
          if x = 0 \<and> y = 0 then Some (char_of (16 * z + u)) else None
      | _ \<Rightarrow> None)"

definition cons_char :: "char \<Rightarrow> (string \<times> string) option \<Rightarrow> (string \<times> string) option" where
  "cons_char c r = (case r of None \<Rightarrow> None | Some (s, rest) \<Rightarrow> Some (c # s, rest))"

text \<open>The characters of a string after its opening quote, up to the closing quote.\<close>

fun parse_chars :: "string \<Rightarrow> (string \<times> string) option" where
  "parse_chars [] = None"
| "parse_chars (c # cs) =
     (if c = CHR 0x22 then Some ([], cs)
      else if c = CHR 0x5C then
        (case cs of
           [] \<Rightarrow> None
         | e # r \<Rightarrow>
             if e = CHR ''u'' then
               (case r of
                  a # b # c' # d # r' \<Rightarrow>
                    (case hex4 a b c' d of None \<Rightarrow> None | Some ch \<Rightarrow> cons_char ch (parse_chars r'))
                | _ \<Rightarrow> None)
             else (case unescape e of None \<Rightarrow> None | Some ch \<Rightarrow> cons_char ch (parse_chars r)))
      else if (of_char c :: nat) < 32 then None
      else cons_char c (parse_chars cs))"

text \<open>
  A property defined twice keeps the place of its first definition and the value of its
  last one.
\<close>

fun put_member :: "string \<Rightarrow> json \<Rightarrow> (string \<times> json) list \<Rightarrow> (string \<times> json) list" where
  "put_member k v [] = [(k, v)]"
| "put_member k v (m # ms) = (if fst m = k then (k, v) # ms else m # put_member k v ms)"

definition members_of :: "(string \<times> json) list \<Rightarrow> (string \<times> json) list" where
  "members_of ms = foldl (\<lambda>acc m. put_member (fst m) (snd m) acc) [] ms"

text \<open>
  The recursive descent. The first argument bounds the number of nested and successive
  calls: it goes down by one from a value to its elements or members and from one element
  or member to the next, each time past at least one character of the text, and
  \<open>JSON_parse\<close> starts above the length of the text, which is enough (lemma
  \<open>JSON_parse_bound_enough\<close>). \<open>parse_elements\<close> and \<open>parse_members\<close> read what follows
  \<open>[\<close> and \<open>{\<close> once the empty array and the empty object are excluded.
\<close>

fun parse_value :: "nat \<Rightarrow> string \<Rightarrow> (json \<times> string) option"
  and parse_elements :: "nat \<Rightarrow> string \<Rightarrow> (json list \<times> string) option"
  and parse_members :: "nat \<Rightarrow> string \<Rightarrow> ((string \<times> json) list \<times> string) option" where
  "parse_value 0 s = None"
| "parse_value (Suc n) s =
     (case s of
        [] \<Rightarrow> None
      | c # r \<Rightarrow>
          if c = CHR ''['' then
            (case skip_ws r of
               [] \<Rightarrow> None
             | c1 # r1 \<Rightarrow>
                 if c1 = CHR '']'' then Some (JArr [], r1)
                 else (case parse_elements n (c1 # r1) of
                         None \<Rightarrow> None | Some (vs, rest) \<Rightarrow> Some (JArr vs, rest)))
          else if c = CHR ''{'' then
            (case skip_ws r of
               [] \<Rightarrow> None
             | c1 # r1 \<Rightarrow>
                 if c1 = CHR ''}'' then Some (JObj [], r1)
                 else (case parse_members n (c1 # r1) of
                         None \<Rightarrow> None | Some (ms, rest) \<Rightarrow> Some (JObj (members_of ms), rest)))
          else if c = CHR 0x22 then
            (case parse_chars r of None \<Rightarrow> None | Some (str, rest) \<Rightarrow> Some (JStr str, rest))
          else if startsWith s ''true'' then Some (JBool True, drop 4 s)
          else if startsWith s ''false'' then Some (JBool False, drop 5 s)
          else if startsWith s ''null'' then Some (JNull, drop 4 s)
          else if c = CHR ''-'' \<or> is_digit c then parse_number s
          else None)"
| "parse_elements 0 s = None"
| "parse_elements (Suc n) s =
     (case parse_value n s of
        None \<Rightarrow> None
      | Some (v, r) \<Rightarrow>
          (case skip_ws r of
             [] \<Rightarrow> None
           | c # r1 \<Rightarrow>
               if c = CHR '','' then
                 (case parse_elements n (skip_ws r1) of
                    None \<Rightarrow> None | Some (vs, rest) \<Rightarrow> Some (v # vs, rest))
               else if c = CHR '']'' then Some ([v], r1)
               else None))"
| "parse_members 0 s = None"
| "parse_members (Suc n) s =
     (case s of
        [] \<Rightarrow> None
      | q # r0 \<Rightarrow>
          if q \<noteq> CHR 0x22 then None
          else
            (case parse_chars r0 of
               None \<Rightarrow> None
             | Some (k, r) \<Rightarrow>
                 (case skip_ws r of
                    [] \<Rightarrow> None
                  | c # r1 \<Rightarrow>
                      if c \<noteq> CHR '':'' then None
                      else
                        (case parse_value n (skip_ws r1) of
                           None \<Rightarrow> None
                         | Some (v, r2) \<Rightarrow>
                             (case skip_ws r2 of
                                [] \<Rightarrow> None
                              | c2 # r3 \<Rightarrow>
                                  if c2 = CHR '','' then
                                    (case parse_members n (skip_ws r3) of
                                       None \<Rightarrow> None | Some (ms, rest) \<Rightarrow> Some ((k, v) # ms, rest))
                                  else if c2 = CHR ''}'' then Some ([(k, v)], r3)
                                  else None)))))"

text \<open>\<open>JSON.parse\<close>: one value between optional white space; \<open>None\<close> is the \<open>SyntaxError\<close>.\<close>

definition JSON_parse :: "string \<Rightarrow> json option" where
  "JSON_parse s =
     (case parse_value (Suc (length s)) (skip_ws s) of
        None \<Rightarrow> None
      | Some (v, rest) \<Rightarrow> if skip_ws rest = [] then Some v else None)"

section \<open>The response normalizer\<close>

text \<open>
  \<open>String.prototype.trim\<close> and the regular expression class \<open>\s\<close> agree on the code units
  up to U+00FF: the controls U+0009..U+000D, the space, and the no-break space. The class
  \<open>\w\<close> is the letters, the digits and the underscore.
\<close>

definition js_space :: "char \<Rightarrow> bool" where
  "js_space c = (let n = (of_char c :: nat) in (9 \<le> n \<and> n \<le> 13) \<or> n = 32 \<or> n = 160)"

definition regex_word :: "char \<Rightarrow> bool" where
  "regex_word c =
     (let n = (of_char c :: nat) in
      (48 \<le> n \<and> n \<le> 57) \<or> (65 \<le> n \<and> n \<le> 90) \<or> (97 \<le> n \<and> n \<le> 122) \<or> n = 95)"

definition trim :: "string \<Rightarrow> string" where
  "trim s = rev (dropWhile js_space (rev (dropWhile js_space s)))"

definition newline :: char where
  "newline = CHR 0x0A"

definition backticks :: string where
  "backticks = [CHR 0x60, CHR 0x60, CHR 0x60]"

text \<open>
  The fence expression of \<open>parseJsonFromText\<close>,
  \<^verbatim>\<open>/^```(\w*)?\s*\n?(.*?)\n?\s*```$/s\<close>, as the backtracking matcher runs it: each
  function is one piece of the expression and tries its alternatives in the matcher's
  order (a greedy piece takes one more character first, the lazy group takes none first)
  with the rest of the expression as its continuation. The result is capture group 2.
  \<open>json_fence_tail\<close> decides whether the closing part \<^verbatim>\<open>\n?\s*```$\<close> matches all that is
  left: white space (a line feed is white space), then the fence, then the end.
\<close>

definition json_fence_tail :: "string \<Rightarrow> bool" where
  "json_fence_tail r =
     (3 \<le> length r \<and> drop (length r - 3) r = backticks \<and> list_all js_space (take (length r - 3) r))"

fun lazy_any :: "(string \<Rightarrow> bool) \<Rightarrow> string \<Rightarrow> string option" where
  "lazy_any tail [] = (if tail [] then Some [] else None)"
| "lazy_any tail (c # cs) =
     (if tail (c # cs) then Some []
      else (case lazy_any tail cs of None \<Rightarrow> None | Some g \<Rightarrow> Some (c # g)))"

definition json_opt_newline :: "string \<Rightarrow> string option" where
  "json_opt_newline r =
     (case r of
        [] \<Rightarrow> lazy_any json_fence_tail r
      | c # cs \<Rightarrow>
          if c = newline
          then (case lazy_any json_fence_tail cs of None \<Rightarrow> lazy_any json_fence_tail r | Some g \<Rightarrow> Some g)
          else lazy_any json_fence_tail r)"

fun json_greedy_space :: "string \<Rightarrow> string option" where
  "json_greedy_space [] = json_opt_newline []"
| "json_greedy_space (c # cs) =
     (if js_space c
      then (case json_greedy_space cs of None \<Rightarrow> json_opt_newline (c # cs) | Some g \<Rightarrow> Some g)
      else json_opt_newline (c # cs))"

fun json_greedy_word :: "string \<Rightarrow> string option" where
  "json_greedy_word [] = json_greedy_space []"
| "json_greedy_word (c # cs) =
     (if regex_word c
      then (case json_greedy_word cs of None \<Rightarrow> json_greedy_space (c # cs) | Some g \<Rightarrow> Some g)
      else json_greedy_space (c # cs))"

definition json_fence_match :: "string \<Rightarrow> string option" where
  "json_fence_match s = (if startsWith s backticks then json_greedy_word (drop 3 s) else None)"

text \<open>
  The repair \<^verbatim>\<open>jsonStr.replace(/}\s*{/g, '},{')\<close>: from left to right, every closing brace
  that is followed by optional white space and an opening brace is replaced, with that
  white space and brace, by \<^verbatim>\<open>},{\<close>; the scan goes on after the replaced text.
\<close>

definition gap_at :: "string \<Rightarrow> bool" where
  "gap_at s =
     (case s of
        [] \<Rightarrow> False
      | c # cs \<Rightarrow> c = CHR ''}'' \<and> (case dropWhile js_space cs of [] \<Rightarrow> False | d # r \<Rightarrow> d = CHR ''{''))"

function repair :: "string \<Rightarrow> string" where
  "repair [] = []"
| "repair (c # cs) =
     (if gap_at (c # cs) then ''},{'' @ repair (tl (dropWhile js_space cs))
      else c # repair cs)"
  by pat_completeness auto
termination
proof (relation "measure length")
  show "wf (measure length)"
    by simp
next
  fix c :: char and cs :: string
  have "length (tl (dropWhile js_space cs)) \<le> length cs"
    using length_dropWhile_le [of js_space cs] by simp
  then show "(tl (dropWhile js_space cs), c # cs) \<in> measure length"
    by simp
next
  fix c :: char and cs :: string
  show "(cs, c # cs) \<in> measure length"
    by simp
qed

text \<open>
  \<open>parseJsonFromText\<close>. Its result type \<open>T | null\<close> is \<^typ>\<open>json\<close>: the \<open>null\<close> returned when
  \<open>JSON.parse\<close> throws is \<^const>\<open>JNull\<close>, as is a parsed \<open>null\<close>. Writes to the console are
  left out, here and below.
\<close>

definition parseJsonFromText :: "string \<Rightarrow> json" where
  "parseJsonFromText text =
     (let jsonStr = trim text;
          jsonStr = (case json_fence_match jsonStr of
                       None \<Rightarrow> jsonStr
                     | Some g2 \<Rightarrow> if g2 \<noteq> [] then trim g2 else jsonStr);
          jsonStr = repair jsonStr
      in case JSON_parse jsonStr of None \<Rightarrow> JNull | Some v \<Rightarrow> v)"






text \<open>
  The fenced block of the specification's round trip: the fence, a language tag, a line
  feed, the body, a line feed, the fence.
\<close>

definition fenced :: "string \<Rightarrow> string \<Rightarrow> string" where
  "fenced tag body = backticks @ tag @ [newline] @ body @ [newline] @ backticks"

section \<open>The collaborators and the environment\<close>

text \<open>
  A prompt is the template of the source with the texts put into its holes; the fixed
  wording of a template is not spelled out. A request carries the prompt and, where the
  source passes one, the response schema or the sampling parameters (temperature and
  \<open>topP\<close> in hundredths).
\<close>

datatype NoteLength = SHORT | MEDIUM | DETAILED

datatype prompt =
    MetadataPrompt string
  | SummaryPrompt string
  | ExplanationPrompt string
  | NotesPrompt NoteLength string
  | QuizPrompt int string
  | FeedbackPrompt int int "string option"
  | PresentationPrompt string
  | DiagramPrompt string

datatype schema = MetadataSchema | QuizSchema | PresentationSchema

datatype config = NoConfig | Sampling nat nat nat | JsonResponse schema

record request =
  model :: string
  contents :: prompt
  config :: config

definition GEMINI_API_PRO_TEXT_MODEL :: string where
  "GEMINI_API_PRO_TEXT_MODEL = ''gemini-2.5-flash''"

definition MIN_CONTENT_LENGTH_FOR_GENERATION :: nat where
  "MIN_CONTENT_LENGTH_FOR_GENERATION = 20"

definition MAX_CONTENT_LENGTH_FOR_GENERATION :: nat where
  "MAX_CONTENT_LENGTH_FOR_GENERATION = 8000"

record image =
  imageBytes :: "string option"
  mimeType :: "string option"

record generated_image =
  image :: "image option"

record images_response =
  generatedImages :: "generated_image list option"

text \<open>
  The client handle \<open>ai\<close>: \<open>None\<close> when no API key was configured. Its two operations are
  scripts, as for \<open>withRetry\<close>: the answer depends on the number of calls the collaborator
  has received and on the request; \<open>Inl\<close> is a rejection, \<open>Inr\<close> the response (for text
  generation, its \<open>text\<close>). The image model and the image configuration are the same in
  every request for images, which is given by its prompt.
\<close>

record 'e client =
  generateContent :: "nat \<Rightarrow> request \<Rightarrow> 'e + string"
  generateImages :: "nat \<Rightarrow> string \<Rightarrow> 'e + images_response"

text \<open>
  What the service reads from the clock and from the random source while it works on the
  slide of a given index: the value of \<open>Date.now()\<close>, and the text
  \<open>Math.random().toString(36).slice(2)\<close>.
\<close>

record env =
  now :: "nat \<Rightarrow> nat"
  random36 :: "nat \<Rightarrow> string"

definition onProgress :: "string \<Rightarrow> world \<Rightarrow> world" where
  "onProgress message w = w\<lparr>progress := progress w @ [message]\<rparr>"

fun show_nat :: "nat \<Rightarrow> string" where
  "show_nat n = (if n < 10 then [char_of (48 + n)] else show_nat (n div 10) @ [char_of (48 + n mod 10)])"

declare show_nat.simps [simp del]

definition show_int :: "int \<Rightarrow> string" where
  "show_int i = (if i < 0 then CHR ''-'' # show_nat (nat (- i)) else show_nat (nat i))"

text \<open>
  \<open>encodeURIComponent\<close> on code units up to U+00FF: letters, digits and
  \<^verbatim>\<open>- _ . ! ~ * ' ( )\<close> stay, any other code unit becomes the escaped bytes of its UTF-8
  form.
\<close>

definition HEX :: "nat \<Rightarrow> char" where
  "HEX n = (if n < 10 then char_of (48 + n) else char_of (55 + n))"

definition percent :: "nat \<Rightarrow> string" where
  "percent b = [CHR ''%'', HEX (b div 16), HEX (b mod 16)]"

definition uri_unreserved :: "char \<Rightarrow> bool" where
  "uri_unreserved c =
     (let n = (of_char c :: nat) in
      (48 \<le> n \<and> n \<le> 57) \<or> (65 \<le> n \<and> n \<le> 90) \<or> (97 \<le> n \<and> n \<le> 122)
      \<or> n = 45 \<or> n = 95 \<or> n = 46 \<or> n = 33 \<or> n = 126 \<or> n = 42 \<or> n = 39 \<or> n = 40 \<or> n = 41)"

definition encode_unit :: "char \<Rightarrow> string" where
  "encode_unit c =
     (let n = (of_char c :: nat) in
      if uri_unreserved c then [c]
      else if n < 128 then percent n
      else percent (192 + n div 64) @ percent (128 + n mod 64))"

definition encodeURIComponent :: "string \<Rightarrow> string" where
  "encodeURIComponent s = concat (map encode_unit s)"

section \<open>Content generation\<close>



definition summary_request :: "string \<Rightarrow> request" where
  "summary_request content =
     \<lparr>model = GEMINI_API_PRO_TEXT_MODEL,
      contents = SummaryPrompt (take MAX_CONTENT_LENGTH_FOR_GENERATION content),
      config = Sampling 50 90 40\<rparr>"

definition explanation_request :: "string \<Rightarrow> request" where
  "explanation_request content =
     \<lparr>model = GEMINI_API_PRO_TEXT_MODEL,
      contents = ExplanationPrompt (take MAX_CONTENT_LENGTH_FOR_GENERATION content),
      config = Sampling 60 95 50\<rparr>"



definition feedback_request :: "int \<Rightarrow> int \<Rightarrow> string option \<Rightarrow> request" where
  "feedback_request score total_questions content =
     \<lparr>model = GEMINI_API_PRO_TEXT_MODEL,
      contents = FeedbackPrompt score total_questions (map_option (take 1000) content),
      config = NoConfig\<rparr>"







definition generateSummary :: "'e client option \<Rightarrow> string \<Rightarrow> world \<Rightarrow> ('e thrown + string) \<times> world" where
  "generateSummary ai content w =
     (case ai of
        None \<Rightarrow> (Inr ''API Key not configured. Summary unavailable.'', w)
      | Some c \<Rightarrow>
          if length content < MIN_CONTENT_LENGTH_FOR_GENERATION
          then (Inr ''Content is too short to generate a meaningful summary.'', w)
          else
            (case generateContent c (calls w) (summary_request content) of
               Inr text \<Rightarrow> (Inr text, called w)
             | Inl error \<Rightarrow> (Inr ''Failed to generate summary. Please try again.'', called w)))"

definition generateExplanation :: "'e client option \<Rightarrow> string \<Rightarrow> world \<Rightarrow> ('e thrown + string) \<times> world" where
  "generateExplanation ai content w =
     (case ai of
        None \<Rightarrow> (Inr ''API Key not configured. Explanation unavailable.'', w)
      | Some c \<Rightarrow>
          if length content < MIN_CONTENT_LENGTH_FOR_GENERATION
          then (Inr ''Content is too short to generate a meaningful explanation.'', w)
          else
            (case generateContent c (calls w) (explanation_request content) of
               Inr text \<Rightarrow> (Inr text, called w)
             | Inl error \<Rightarrow> (Inr ''Failed to generate explanation. Please try again.'', called w)))"



text \<open>The field \<open>text\<close> of \<open>AiGeneratedFeedback\<close> is \<open>feedback_text\<close> here.\<close>

record AiGeneratedFeedback =
  feedback_text :: string

definition generateFeedbackOnQuiz ::
  "'e client option \<Rightarrow> int \<Rightarrow> int \<Rightarrow> string option \<Rightarrow> world
     \<Rightarrow> ('e thrown + AiGeneratedFeedback) \<times> world" where
  "generateFeedbackOnQuiz ai score total_questions content w =
     (case ai of
        None \<Rightarrow> (Inr \<lparr>feedback_text = ''AI feedback is unavailable as the API key is not configured.''\<rparr>, w)
      | Some c \<Rightarrow>
          (case generateContent c (calls w) (feedback_request score total_questions content) of
             Inr response_text \<Rightarrow> (Inr \<lparr>feedback_text = response_text\<rparr>, called w)
           | Inl error \<Rightarrow> (Inl (Rejected error), called w)))"



section \<open>Media enrichment\<close>

record SlideContent =
  title :: string
  content :: "string list"
  imagePrompt :: string
  imageUrl :: "string option"

text \<open>
  The field \<open>title\<close> of \<open>PresentationContent\<close> is \<open>presentation_title\<close> here, apart from the
  \<open>title\<close> of a slide.
\<close>

record PresentationContent =
  presentation_title :: string
  slides :: "SlideContent list"

definition getFallbackImageUrl :: "string \<Rightarrow> string \<Rightarrow> string" where
  "getFallbackImageUrl prompt seedSuffix =
     ''https://image.pollinations.ai/prompt/'' @ encodeURIComponent prompt
       @ ''?width=1280&height=720&seed='' @ encodeURIComponent (''presentation-'' @ seedSuffix)"

text \<open>\<open>imageResponse.generatedImages?.[0]?.image\<close>\<close>

definition first_image :: "images_response \<Rightarrow> image option" where
  "first_image r =
     (case generatedImages r of None \<Rightarrow> None | Some [] \<Rightarrow> None | Some (g # gs) \<Rightarrow> image g)"

definition data_url :: "image \<Rightarrow> string \<Rightarrow> string" where
  "data_url img bytes =
     ''data:'' @ (case mimeType img of None \<Rightarrow> ''undefined'' | Some m \<Rightarrow> m) @ '';base64,'' @ bytes"

text \<open>
  The URL chosen for slide \<open>i\<close> from the outcome of its \<open>withRetry\<close>: the inline image when
  the response carries non-empty image bytes, the fallback URL otherwise and on rejection.
\<close>

definition slide_image_url :: "env \<Rightarrow> nat \<Rightarrow> SlideContent \<Rightarrow> 'e thrown + images_response \<Rightarrow> string" where
  "slide_image_url e i slide outcome =
     (let fallback = getFallbackImageUrl (imagePrompt slide) (show_nat i @ ''-'' @ random36 e i) in
      case outcome of
        Inl error \<Rightarrow> fallback
      | Inr imageResponse \<Rightarrow>
          (case first_image imageResponse of
             None \<Rightarrow> fallback
           | Some img \<Rightarrow>
               (case imageBytes img of
                  None \<Rightarrow> fallback
                | Some bytes \<Rightarrow> if bytes \<noteq> [] then data_url img bytes else fallback)))"


text \<open>
  The observer given to \<open>withRetry\<close> for slide \<open>i\<close>. The delays it is told are the first
  delay 1000 doubled some times, so \<open>delay / 1000\<close> is a whole number.
\<close>

definition slide_observer :: "nat \<Rightarrow> observer" where
  "slide_observer i attempt delay log =
     log @ [''Rate limit on slide '' @ show_nat (i + 1) @ ''. Retrying in '' @ show_int (delay div 1000) @ ''s...'']"

text \<open>
  The loop over the slides: \<open>i\<close> is the index of the first remaining slide, \<open>n\<close> is
  \<open>slides.length\<close>, and \<open>updatedSlides\<close> is the list built so far.
\<close>

fun enrich_slides ::
  "'e client \<Rightarrow> ('e \<Rightarrow> string option) \<Rightarrow> env \<Rightarrow> nat \<Rightarrow> nat \<Rightarrow> SlideContent list \<Rightarrow> SlideContent list
     \<Rightarrow> world \<Rightarrow> SlideContent list \<times> world" where
  "enrich_slides c JSON_stringify e n i [] updatedSlides w = (updatedSlides, w)"
| "enrich_slides c JSON_stringify e n i (slide # rest) updatedSlides w =
     (let w1 = (if 0 < i then sleep 1000 w else w);
          w2 = onProgress (''Creating visual for slide '' @ show_nat (i + 1) @ '' of '' @ show_nat n @ ''...'') w1;
          (outcome, w3) = withRetry (\<lambda>k. generateImages c k (imagePrompt slide)) JSON_stringify 3 1000
                            (Some (slide_observer i)) w2;
          url = slide_image_url e i slide outcome;
          w4 = onProgress (''Visuals processing complete for '' @ show_nat (i + 1) @ ''/'' @ show_nat n @ '' slides.'') w3
      in enrich_slides c JSON_stringify e n (i + 1) rest (updatedSlides @ [slide\<lparr>imageUrl := Some url\<rparr>]) w4)"

definition fallback_slides :: "env \<Rightarrow> SlideContent list \<Rightarrow> SlideContent list" where
  "fallback_slides e ss =
     map (\<lambda>(idx, slide).
            slide\<lparr>imageUrl := Some (getFallbackImageUrl (imagePrompt slide)
                                       (show_nat idx @ ''-'' @ show_nat (now e idx)))\<rparr>)
         (zip [0..<length ss] ss)"

definition generatePresentationImages ::
  "'e client option \<Rightarrow> ('e \<Rightarrow> string option) \<Rightarrow> env \<Rightarrow> PresentationContent \<Rightarrow> world
     \<Rightarrow> ('e thrown + PresentationContent option) \<times> world" where
  "generatePresentationImages ai JSON_stringify e presentation w =
     (case ai of
        None \<Rightarrow>
          (let updatedSlides = fallback_slides e (slides presentation);
               w1 = onProgress ''Using fallback image provider.'' w
           in (Inr (Some (presentation\<lparr>slides := updatedSlides\<rparr>)), w1))
      | Some c \<Rightarrow>
          (let w1 = onProgress ''Starting visual generation for slides...'' w;
               (updatedSlides, w2) =
                  enrich_slides c JSON_stringify e (length (slides presentation)) 0 (slides presentation) [] w1;
               w3 = onProgress ''Visual generation complete!'' w2
           in (Inr (Some (presentation\<lparr>slides := updatedSlides\<rparr>)), w3)))"

text \<open>
  For concrete runs: a client whose every call is rejected with the given error, a clock
  and a random source, a deck of two slides, and an input text of more than twenty characters.
\<close>

definition rejecting_client :: "string \<Rightarrow> string client" where
  "rejecting_client err = \<lparr>generateContent = (\<lambda>n r. Inl err), generateImages = (\<lambda>n p. Inl err)\<rparr>"



definition long_text :: string where
  "long_text = ''Photosynthesis turns light into sugar.''"

section \<open>The values of the round trip\<close>

text \<open>
  The values on which \<open>stringify\<close> is the platform's \<open>JSON.stringify\<close> and on which
  equality of model values is structural equality: the numbers are integers below
  \<open>10 ^ 15\<close> in magnitude, written as the platform prints them (no sign on zero, no leading
  zero), and the keys of an object are distinct.
\<close>

definition plain_integer :: "string \<Rightarrow> bool" where
  "plain_integer l =
     (l = ''0'' \<or>
      (let ds = (case l of [] \<Rightarrow> l | c # r \<Rightarrow> if c = CHR ''-'' then r else l)
       in ds \<noteq> [] \<and> list_all is_digit ds \<and> hd ds \<noteq> CHR ''0'' \<and> length ds \<le> 15))"

fun canonical :: "json \<Rightarrow> bool"
  and canonical_elements :: "json list \<Rightarrow> bool"
  and canonical_members :: "(string \<times> json) list \<Rightarrow> bool" where
  "canonical JNull = True"
| "canonical (JBool b) = True"
| "canonical (JNum l) = plain_integer l"
| "canonical (JStr s) = True"
| "canonical (JArr vs) = canonical_elements vs"
| "canonical (JObj ms) = (distinct (map fst ms) \<and> canonical_members ms)"
| "canonical_elements [] = True"
| "canonical_elements (v # vs) = (canonical v \<and> canonical_elements vs)"
| "canonical_members [] = True"
| "canonical_members ((k, v) # ms) = (canonical v \<and> canonical_members ms)"

text \<open>A text in which the repair of \<open>parseJsonFromText\<close> finds something to replace.\<close>

fun has_gap :: "string \<Rightarrow> bool" where
  "has_gap [] = False"
| "has_gap (c # cs) = (gap_at (c # cs) \<or> has_gap cs)"

text \<open>
  For the proofs: the text after a value begins with a numeral character; and the
  characters a serialized value can begin with.
\<close>

definition num_follows :: "string \<Rightarrow> bool" where
  "num_follows rest = (case rest of [] \<Rightarrow> False | c # r \<Rightarrow> numchar c)"

definition value_head :: "char \<Rightarrow> bool" where
  "value_head c = (c = CHR ''n'' \<or> c = CHR ''t'' \<or> c = CHR ''f'' \<or> c = CHR 0x22 \<or> c = CHR ''[''
                   \<or> c = CHR ''{'' \<or> c = CHR ''-'' \<or> is_digit c)"


text \<open>Values for concrete runs.\<close>

definition object_a :: "(string \<times> json) list" where
  "object_a = [(''a'', JStr ''x'')]"

definition object_b :: "(string \<times> json) list" where
  "object_b = [(''b'', JNum ''2'')]"


section \<open>Properties\<close>

subsection \<open>The retry executor\<close>

lemma calls_notify [simp]: "calls (notify onRetry a d w) = calls w"
  by (simp add: notify_def split: option.splits)

lemma slept_notify [simp]: "slept (notify onRetry a d w) = slept w"
  by (simp add: notify_def split: option.splits)

lemma calls_retry_world: "calls (retry_world onRetry a d k w) = calls w + k"
  by (induction k arbitrary: a d w) (simp_all add: sleep_def called_def)

lemma slept_retry_world:
  "slept (retry_world onRetry a d k w) = slept w @ map (\<lambda>i. d * 2 ^ i) [0..<k]"
proof (induction k arbitrary: a d w)
  case 0
  show ?case by simp
next
  case (Suc k)
  have "map (\<lambda>i. d * 2 ^ i) [0..<Suc k] = d # map (\<lambda>i. d * 2 * 2 ^ i) [0..<k]"
    by (simp add: upt_rec [of 0 "Suc k"] map_Suc_upt [symmetric] del: upt_Suc)
  then show ?case
    using Suc.IH by (simp add: sleep_def called_def del: upt_Suc)
qed

lemma loop_transient_prefix:
  assumes "attempt + int k < maxAttempts"
    and "\<forall>i<k. transient_at fn JSON_stringify (calls w + i)"
  shows "withRetry_loop fn JSON_stringify maxAttempts onRetry attempt delay w =
         withRetry_loop fn JSON_stringify maxAttempts onRetry (attempt + int k) (delay * 2 ^ k)
           (retry_world onRetry attempt delay k w)"
  using assms
proof (induction k arbitrary: attempt delay w)
  case 0
  show ?case by simp
next
  case (Suc k)
  let ?w1 = "sleep delay (notify onRetry (attempt + 1) delay (called w))"
  from Suc.prems(2) have t0: "transient_at fn JSON_stringify (calls w)"
    by (metis add.right_neutral zero_less_Suc)
  have c1: "calls ?w1 = Suc (calls w)"
    by (simp add: sleep_def called_def)
  have rest: "\<forall>i<k. transient_at fn JSON_stringify (calls ?w1 + i)"
    using Suc.prems(2) c1 by (metis Suc_less_eq add_Suc_shift)
  have bound: "attempt + 1 + int k < maxAttempts"
    using Suc.prems(1) by simp
  have step: "withRetry_loop fn JSON_stringify maxAttempts onRetry attempt delay w =
              withRetry_loop fn JSON_stringify maxAttempts onRetry (attempt + 1) (delay * 2) ?w1"
    using t0 bound
    by (subst withRetry_loop.simps) (auto simp: transient_at_def split: sum.splits option.splits)
  have "withRetry_loop fn JSON_stringify maxAttempts onRetry (attempt + 1) (delay * 2) ?w1 =
        withRetry_loop fn JSON_stringify maxAttempts onRetry (attempt + 1 + int k) (delay * 2 * 2 ^ k)
          (retry_world onRetry (attempt + 1) (delay * 2) k ?w1)"
    by (rule Suc.IH [OF bound rest])
  with step show ?case by (simp add: algebra_simps)
qed

lemma geometric_sum: "sum_list (map (\<lambda>i. d * 2 ^ i) [0..<k]) = d * (2 ^ k - 1)" for d :: int
  by (induction k) (simp_all add: algebra_simps)

text \<open>
  Claim C1. When the first \<open>k\<close> calls of the operation fail with transiently classified
  errors, \<open>k\<close> is below \<open>maxAttempts\<close>, and call \<open>k + 1\<close> succeeds, \<open>withRetry\<close>
  returns the result of that call after \<open>k + 1\<close> calls; the sleeps before it are
  \<open>initialDelay\<close>, \<open>2 * initialDelay\<close>, ..., and they add up to
  \<open>initialDelay * (2 ^ k - 1)\<close>, which is \<open>initialDelay * (2 ^ (N - 1) - 1)\<close> for attempt
  \<open>N = k + 1\<close>.
\<close>

theorem withRetry_transient_then_success:
  assumes "int k < maxAttempts"
    and "\<forall>i<k. transient_at fn JSON_stringify (calls w + i)"
    and "fn (calls w + k) = Inr r"
  shows "\<exists>w'. withRetry fn JSON_stringify maxAttempts initialDelay onRetry w = (Inr r, w')
           \<and> calls w' = calls w + k + 1
           \<and> slept w' = slept w @ map (\<lambda>i. initialDelay * 2 ^ i) [0..<k]
           \<and> sum_list (map (\<lambda>i. initialDelay * 2 ^ i) [0..<k]) = initialDelay * (2 ^ k - 1)"
proof -
  let ?wk = "retry_world onRetry 0 initialDelay k w"
  have "withRetry fn JSON_stringify maxAttempts initialDelay onRetry w =
        withRetry_loop fn JSON_stringify maxAttempts onRetry (int k) (initialDelay * 2 ^ k) ?wk"
    unfolding withRetry_def using loop_transient_prefix [of 0 k maxAttempts fn JSON_stringify w onRetry initialDelay] assms(1,2)
    by simp
  also have "\<dots> = (Inr r, called ?wk)"
    using assms(1,3) by (subst withRetry_loop.simps) (simp add: calls_retry_world)
  finally show ?thesis
    by (simp add: called_def calls_retry_world slept_retry_world geometric_sum del: upt_Suc)
qed


lemma includes_simps:
  "str_includes (c # cs) (p # ps) = ((c = p \<and> startsWith cs ps) \<or> str_includes cs (p # ps))"
  "str_includes [] (p # ps) = False"
  "startsWith s [] = True"
  "startsWith [] (p # ps) = False"
  "startsWith (c # cs) (p # ps) = (c = p \<and> startsWith cs ps)"
  by (auto simp: startsWith_def)

theorem withRetry_transient_then_success_witness:
  "transient_at (\<lambda>n. if n < 2 then Inl ''HTTP 429'' else Inr True) stringify_plain 0
   \<and> transient_at (\<lambda>n. if n < 2 then Inl ''HTTP 429'' else Inr True) stringify_plain 1
   \<and> (\<exists>w'. withRetry (\<lambda>n. if n < 2 then Inl ''HTTP 429'' else Inr True) stringify_plain 3 1000 None w0 = (Inr True, w')
         \<and> calls w' = 3 \<and> slept w' = [1000, 2000])"
proof -
  let ?fn = "\<lambda>n::nat. if n < 2 then Inl ''HTTP 429'' else (Inr True :: string + bool)"
  have t0: "transient_at ?fn stringify_plain 0"
    by code_simp
  have t1: "transient_at ?fn stringify_plain 1"
    by code_simp
  have h: "\<forall>i<2. transient_at ?fn stringify_plain (calls w0 + i)"
  proof (intro allI impI)
    fix i :: nat
    assume "i < 2"
    then have "i = 0 \<or> i = 1"
      by linarith
    then show "transient_at ?fn stringify_plain (calls w0 + i)"
      using t0 t1 by (auto simp: w0_def)
  qed
  have s: "?fn (calls w0 + 2) = Inr True"
    by (simp add: w0_def)
  have k: "int 2 < 3"
    by simp
  have u: "[0..<2] = [0, Suc 0]"
    by (simp add: upt_rec)
  have "\<exists>w'. withRetry ?fn stringify_plain 3 1000 None w0 = (Inr True, w')
          \<and> calls w' = calls w0 + 2 + 1
          \<and> slept w' = slept w0 @ map (\<lambda>i. 1000 * 2 ^ i) [0..<2]
          \<and> sum_list (map (\<lambda>i. 1000 * 2 ^ i) [0..<2]) = (1000::int) * (2 ^ 2 - 1)"
    using withRetry_transient_then_success [where fn = ?fn and JSON_stringify = stringify_plain and w = w0
        and k = 2 and maxAttempts = 3 and r = True and initialDelay = 1000 and onRetry = None, OF k h s] .
  then obtain w' where "withRetry ?fn stringify_plain 3 1000 None w0 = (Inr True, w')"
    and "calls w' = calls w0 + 2 + 1" and "slept w' = slept w0 @ map (\<lambda>i. 1000 * 2 ^ i) [0..<2]"
    by blast
  then have "withRetry ?fn stringify_plain 3 1000 None w0 = (Inr True, w') \<and> calls w' = 3 \<and> slept w' = [1000, 2000]"
    by (simp add: w0_def u)
  then show ?thesis
    using t0 t1 by blast
qed

text \<open>
  Claim C4. When the first call fails with an error whose serialized form carries none of
  the four markers, \<open>withRetry\<close> rejects with that very error after this single call: the
  world only counts one more call, so nothing was slept and the observer was not told.
\<close>

theorem withRetry_fatal_once:
  assumes "0 < maxAttempts"
    and "fn (calls w) = Inl err"
    and "JSON_stringify err = Some errorMessage"
    and "\<not> isRateLimitError errorMessage"
  shows "withRetry fn JSON_stringify maxAttempts initialDelay onRetry w = (Inl (Rejected err), called w)"
  unfolding withRetry_def using assms by (subst withRetry_loop.simps) simp

theorem withRetry_fatal_once_witness:
  "withRetry (\<lambda>n. if n = 0 then Inl ''HTTP 401'' else Inr True) stringify_plain 3 1000
     (Some (\<lambda>a d log. log @ [''retry''])) w0
   = (Inl (Rejected ''HTTP 401''), \<lparr>calls = 1, slept = [], progress = []\<rparr>)"
proof -
  have "\<not> isRateLimitError (''\"'' @ ''HTTP 401'' @ ''\"'')"
    by (simp add: isRateLimitError_def includes_simps)
  then show ?thesis
    using withRetry_fatal_once [of 3 "\<lambda>n. if n = 0 then Inl ''HTTP 401'' else Inr True" w0 "''HTTP 401''"
        stringify_plain "''\"'' @ ''HTTP 401'' @ ''\"''" 1000 "Some (\<lambda>a d log. log @ [''retry''])"]
    by (simp add: stringify_plain_def w0_def called_def)
qed


lemma loop_ceiling:
  "calls (snd (withRetry_loop fn JSON_stringify maxAttempts onRetry attempt delay w))
     \<le> calls w + nat (maxAttempts - attempt)"
proof (induction fn JSON_stringify maxAttempts onRetry attempt delay w rule: withRetry_loop.induct)
  case (1 fn JSON_stringify maxAttempts onRetry attempt delay w)
  show ?case
  proof (cases "attempt < maxAttempts")
    case False
    then show ?thesis by (subst withRetry_loop.simps) simp
  next
    case True
    show ?thesis
    proof (cases "fn (calls w)")
      case (Inr r)
      with True show ?thesis by (subst withRetry_loop.simps) (simp add: called_def)
    next
      case (Inl err)
      show ?thesis
      proof (cases "JSON_stringify err")
        case None
        with True Inl show ?thesis by (subst withRetry_loop.simps) (simp add: called_def)
      next
        case (Some errorMessage)
        show ?thesis
        proof (cases "isRateLimitError errorMessage \<and> attempt + 1 < maxAttempts")
          case False
          with True Inl Some show ?thesis by (subst withRetry_loop.simps) (auto simp: called_def)
        next
          case again: True
          have "calls (snd (withRetry_loop fn JSON_stringify maxAttempts onRetry (attempt + 1) (delay * 2)
                  (sleep delay (notify onRetry (attempt + 1) delay (called w)))))
                \<le> calls (sleep delay (notify onRetry (attempt + 1) delay (called w))) + nat (maxAttempts - (attempt + 1))"
            using "1.IH" [OF True Inl Some again] .
          also have "\<dots> = calls w + 1 + nat (maxAttempts - (attempt + 1))"
            by (simp add: sleep_def called_def)
          also have "\<dots> = calls w + nat (maxAttempts - attempt)"
            using True by simp
          finally show ?thesis
            using True Inl Some again by (subst withRetry_loop.simps) simp
        qed
      qed
    qed
  qed
qed



text \<open>
  Claim C5. With \<open>maxAttempts = 3\<close> and three transiently classified failures in a row,
  \<open>withRetry\<close> makes exactly three calls, sleeps twice, and rejects with the third error,
  whatever a fourth call would have returned; and no run of \<open>withRetry\<close> makes more than
  \<open>maxAttempts\<close> calls.
\<close>

theorem withRetry_exhausts_at_three:
  assumes "transient_at fn JSON_stringify (calls w)"
    and "transient_at fn JSON_stringify (calls w + 1)"
    and "fn (calls w + 2) = Inl err"
    and "JSON_stringify err = Some errorMessage"
    and "isRateLimitError errorMessage"
  shows "(\<exists>w'. withRetry fn JSON_stringify 3 initialDelay onRetry w = (Inl (Rejected err), w')
            \<and> calls w' = calls w + 3
            \<and> slept w' = slept w @ [initialDelay, initialDelay * 2])
         \<and> calls (snd (withRetry fn' JSON_stringify' maxAttempts' initialDelay' onRetry' w'')) \<le> calls w'' + nat maxAttempts'"
proof
  let ?w2 = "retry_world onRetry 0 initialDelay (Suc (Suc 0)) w"
  have pre: "\<forall>i<Suc (Suc 0). transient_at fn JSON_stringify (calls w + i)"
    using assms(1,2) by (simp add: less_Suc_eq)
  have f: "fn (calls ?w2) = Inl err"
    using assms(3) by (simp add: calls_retry_world del: retry_world.simps)
  have "withRetry_loop fn JSON_stringify 3 onRetry 0 initialDelay w =
        withRetry_loop fn JSON_stringify 3 onRetry (0 + int (Suc (Suc 0))) (initialDelay * 2 ^ Suc (Suc 0)) ?w2"
    by (rule loop_transient_prefix) (use pre in simp_all)
  also have "\<dots> = (Inl (Rejected err), called ?w2)"
    by (subst withRetry_loop.simps) (simp add: f assms(4,5) del: retry_world.simps)
  finally have r: "withRetry fn JSON_stringify 3 initialDelay onRetry w = (Inl (Rejected err), called ?w2)"
    by (simp add: withRetry_def del: retry_world.simps)
  have u: "[0..<Suc (Suc 0)] = [0, Suc 0]"
    by (simp add: upt_rec)
  have "calls (called ?w2) = calls w + 3"
    by (simp add: called_def calls_retry_world del: retry_world.simps)
  moreover have "slept (called ?w2) = slept w @ [initialDelay, initialDelay * 2]"
    unfolding called_def by (simp add: slept_retry_world u del: upt_Suc retry_world.simps)
  ultimately show "\<exists>w'. withRetry fn JSON_stringify 3 initialDelay onRetry w = (Inl (Rejected err), w')
            \<and> calls w' = calls w + 3
            \<and> slept w' = slept w @ [initialDelay, initialDelay * 2]"
    using r by blast
next
  show "calls (snd (withRetry fn' JSON_stringify' maxAttempts' initialDelay' onRetry' w'')) \<le> calls w'' + nat maxAttempts'"
    unfolding withRetry_def using loop_ceiling [of fn' JSON_stringify' maxAttempts' onRetry' 0 initialDelay' w''] by simp
qed





theorem withRetry_exhausts_at_three_witness:
  "transient_at (\<lambda>n. if n < 3 then Inl ''503 UNAVAILABLE'' else Inr True) stringify_plain (calls w0)
   \<and> (\<exists>w'. withRetry (\<lambda>n. if n < 3 then Inl ''503 UNAVAILABLE'' else Inr True) stringify_plain 3 1000 None w0
            = (Inl (Rejected ''503 UNAVAILABLE''), w')
         \<and> calls w' = 3 \<and> slept w' = [1000, 2000])"
proof -
  let ?fn = "\<lambda>n::nat. if n < 3 then Inl ''503 UNAVAILABLE'' else (Inr True :: string + bool)"
  have m: "isRateLimitError (''\"'' @ ''503 UNAVAILABLE'' @ ''\"'')"
    by code_simp
  have t0: "transient_at ?fn stringify_plain (calls w0)"
    by code_simp
  have t1: "transient_at ?fn stringify_plain (calls w0 + 1)"
    by code_simp
  have e: "?fn (calls w0 + 2) = Inl ''503 UNAVAILABLE''"
    by (simp add: w0_def)
  have q: "stringify_plain ''503 UNAVAILABLE'' = Some (''\"'' @ ''503 UNAVAILABLE'' @ ''\"'')"
    by (simp add: stringify_plain_def)
  have "\<exists>w'. withRetry ?fn stringify_plain 3 1000 None w0 = (Inl (Rejected ''503 UNAVAILABLE''), w')
          \<and> calls w' = calls w0 + 3 \<and> slept w' = slept w0 @ [1000, 1000 * 2]"
    using withRetry_exhausts_at_three [where fn = ?fn and JSON_stringify = stringify_plain and w = w0
        and initialDelay = 1000 and onRetry = None, OF t0 t1 e q m]
    by (rule conjunct1)
  with t0 show ?thesis
    by (simp add: w0_def)
qed



subsection \<open>Media enrichment\<close>




lemma enrich_slides_step:
  "enrich_slides c JSON_stringify e n i (slide # rest) updatedSlides w =
     enrich_slides c JSON_stringify e n (i + 1) rest
       (updatedSlides @ [slide\<lparr>imageUrl := Some (slide_image_url e i slide
            (fst (withRetry (\<lambda>k. generateImages c k (imagePrompt slide)) JSON_stringify 3 1000
                   (Some (slide_observer i))
                   (onProgress (''Creating visual for slide '' @ show_nat (i + 1) @ '' of '' @ show_nat n @ ''...'')
                      (if 0 < i then sleep 1000 w else w)))))\<rparr>])
       (onProgress (''Visuals processing complete for '' @ show_nat (i + 1) @ ''/'' @ show_nat n @ '' slides.'')
          (snd (withRetry (\<lambda>k. generateImages c k (imagePrompt slide)) JSON_stringify 3 1000
                   (Some (slide_observer i))
                   (onProgress (''Creating visual for slide '' @ show_nat (i + 1) @ '' of '' @ show_nat n @ ''...'')
                      (if 0 < i then sleep 1000 w else w)))))"
  by (simp add: Let_def split: prod.splits)

lemma enrich_slides_frame:
  "map (\<lambda>s. s\<lparr>imageUrl := None\<rparr>) (fst (enrich_slides c JSON_stringify e n i ss updatedSlides w))
   = map (\<lambda>s. s\<lparr>imageUrl := None\<rparr>) (updatedSlides @ ss)"
proof (induction ss arbitrary: i updatedSlides w)
  case Nil
  show ?case by simp
next
  case (Cons slide rest)
  show ?case
    by (subst enrich_slides_step) (simp add: Cons.IH)
qed


lemma map_zip_index_frame:
  "map (\<lambda>s. s\<lparr>imageUrl := None\<rparr>)
     (map (\<lambda>(idx, slide). slide\<lparr>imageUrl := Some (g idx slide)\<rparr>) (zip [k..<k + length ss] ss))
   = map (\<lambda>s. s\<lparr>imageUrl := None\<rparr>) ss"
proof (induction ss arbitrary: k)
  case Nil
  show ?case by simp
next
  case (Cons a ss)
  have "[k..<k + length (a # ss)] = k # [Suc k..<Suc k + length ss]"
    by (subst upt_rec) simp
  then show ?case
    using Cons.IH [of "Suc k"] by simp
qed

lemma fallback_slides_frame:
  "map (\<lambda>s. s\<lparr>imageUrl := None\<rparr>) (fallback_slides e ss) = map (\<lambda>s. s\<lparr>imageUrl := None\<rparr>) ss"
  unfolding fallback_slides_def
  using map_zip_index_frame [of "\<lambda>idx slide. getFallbackImageUrl (imagePrompt slide)
                                       (show_nat idx @ ''-'' @ show_nat (now e idx))" 0 ss]
  by simp

lemma erased_fields:
  assumes "map (\<lambda>s. s\<lparr>imageUrl := None\<rparr>) xs = map (\<lambda>s. s\<lparr>imageUrl := None\<rparr>) ys"
  shows "map title xs = map title ys" and "map content xs = map content ys"
    and "map imagePrompt xs = map imagePrompt ys"
proof -
  have "map title (map (\<lambda>s. s\<lparr>imageUrl := None\<rparr>) xs) = map title (map (\<lambda>s. s\<lparr>imageUrl := None\<rparr>) ys)"
    using assms by simp
  then show "map title xs = map title ys" by (simp add: comp_def)
  have "map content (map (\<lambda>s. s\<lparr>imageUrl := None\<rparr>) xs) = map content (map (\<lambda>s. s\<lparr>imageUrl := None\<rparr>) ys)"
    using assms by simp
  then show "map content xs = map content ys" by (simp add: comp_def)
  have "map imagePrompt (map (\<lambda>s. s\<lparr>imageUrl := None\<rparr>) xs) = map imagePrompt (map (\<lambda>s. s\<lparr>imageUrl := None\<rparr>) ys)"
    using assms by simp
  then show "map imagePrompt xs = map imagePrompt ys" by (simp add: comp_def)
qed

lemma generatePresentationImages_Some:
  "generatePresentationImages (Some c) JSON_stringify e presentation w =
     (Inr (Some (presentation\<lparr>slides :=
         fst (enrich_slides c JSON_stringify e (length (slides presentation)) 0 (slides presentation) []
                (onProgress ''Starting visual generation for slides...'' w))\<rparr>)),
      onProgress ''Visual generation complete!''
        (snd (enrich_slides c JSON_stringify e (length (slides presentation)) 0 (slides presentation) []
                (onProgress ''Starting visual generation for slides...'' w))))"
  by (simp add: generatePresentationImages_def Let_def case_prod_beta)

lemma generatePresentationImages_None:
  "generatePresentationImages None JSON_stringify e presentation w =
     (Inr (Some (presentation\<lparr>slides := fallback_slides e (slides presentation)\<rparr>)),
      onProgress ''Using fallback image provider.'' w)"
  by (simp add: generatePresentationImages_def Let_def)

lemma generatePresentationImages_shape:
  "\<exists>us w'. generatePresentationImages ai JSON_stringify e presentation w
              = (Inr (Some (presentation\<lparr>slides := us\<rparr>)), w')
     \<and> map (\<lambda>s. s\<lparr>imageUrl := None\<rparr>) us = map (\<lambda>s. s\<lparr>imageUrl := None\<rparr>) (slides presentation)"
proof (cases ai)
  case None
  show ?thesis
    unfolding None generatePresentationImages_None using fallback_slides_frame by blast
next
  case (Some c)
  have "map (\<lambda>s. s\<lparr>imageUrl := None\<rparr>)
          (fst (enrich_slides c JSON_stringify e (length (slides presentation)) 0 (slides presentation) []
                  (onProgress ''Starting visual generation for slides...'' w)))
        = map (\<lambda>s. s\<lparr>imageUrl := None\<rparr>) (slides presentation)"
    using enrich_slides_frame [of c JSON_stringify e "length (slides presentation)" 0 "slides presentation" "[]"]
    by simp
  then show ?thesis
    unfolding Some generatePresentationImages_Some by blast
qed

text \<open>
  Claim C10. Whatever the client handle and the collaborator's answers,
  \<open>generatePresentationImages\<close> resolves with a document that is the input document with a
  new list of slides: the title of the document is the same, there are as many slides, and
  slide by slide the title, the bullets and the image prompt are the same; the slides of
  the two documents are equal once \<open>imageUrl\<close> is erased.
\<close>

theorem generatePresentationImages_frame:
  "\<exists>doc w'. generatePresentationImages ai JSON_stringify e presentation w = (Inr (Some doc), w')
      \<and> doc = presentation\<lparr>slides := slides doc\<rparr>
      \<and> presentation_title doc = presentation_title presentation
      \<and> length (slides doc) = length (slides presentation)
      \<and> map title (slides doc) = map title (slides presentation)
      \<and> map content (slides doc) = map content (slides presentation)
      \<and> map imagePrompt (slides doc) = map imagePrompt (slides presentation)
      \<and> map (\<lambda>s. s\<lparr>imageUrl := None\<rparr>) (slides doc) = map (\<lambda>s. s\<lparr>imageUrl := None\<rparr>) (slides presentation)"
proof -
  obtain us w' where g: "generatePresentationImages ai JSON_stringify e presentation w
                          = (Inr (Some (presentation\<lparr>slides := us\<rparr>)), w')"
    and f: "map (\<lambda>s. s\<lparr>imageUrl := None\<rparr>) us = map (\<lambda>s. s\<lparr>imageUrl := None\<rparr>) (slides presentation)"
    using generatePresentationImages_shape by blast
  let ?doc = "presentation\<lparr>slides := us\<rparr>"
  have l: "length us = length (slides presentation)"
    using arg_cong [OF f, of length] by simp
  have "?doc = presentation\<lparr>slides := slides ?doc\<rparr>"
    by simp
  moreover have "presentation_title ?doc = presentation_title presentation"
    by simp
  moreover have "slides ?doc = us"
    by simp
  ultimately show ?thesis
    using g f l erased_fields [OF f] by (intro exI [of _ ?doc] exI [of _ w']) (simp only: simp_thms)
qed








subsection \<open>Content generation\<close>

text \<open>
  Claim C2, as the code has it. \<open>generateSummary\<close> and \<open>generateExplanation\<close> always resolve
  with a string, and with their fixed placeholder when the model call is rejected.
  \<open>generateFeedbackOnQuiz\<close> resolves with its placeholder object when there is no client
  and with the model's text when the call succeeds; when the call is rejected it rejects
  with the collaborator's error.
\<close>

theorem display_operations_settle:
  "(\<exists>s. fst (generateSummary ai source w) = Inr s)
   \<and> (\<exists>s. fst (generateExplanation ai source w) = Inr s)
   \<and> (MIN_CONTENT_LENGTH_FOR_GENERATION \<le> length source
        \<longrightarrow> generateContent c (calls w) (summary_request source) = Inl err
        \<longrightarrow> fst (generateSummary (Some c) source w) = Inr ''Failed to generate summary. Please try again.'')
   \<and> (MIN_CONTENT_LENGTH_FOR_GENERATION \<le> length source
        \<longrightarrow> generateContent c (calls w) (explanation_request source) = Inl err
        \<longrightarrow> fst (generateExplanation (Some c) source w) = Inr ''Failed to generate explanation. Please try again.'')
   \<and> fst (generateFeedbackOnQuiz None score total_questions material w)
        = Inr \<lparr>feedback_text = ''AI feedback is unavailable as the API key is not configured.''\<rparr>
   \<and> (generateContent c (calls w) (feedback_request score total_questions material) = Inr reply
        \<longrightarrow> fst (generateFeedbackOnQuiz (Some c) score total_questions material w) = Inr \<lparr>feedback_text = reply\<rparr>)
   \<and> (generateContent c (calls w) (feedback_request score total_questions material) = Inl err
        \<longrightarrow> fst (generateFeedbackOnQuiz (Some c) score total_questions material w) = Inl (Rejected err))"
  by (auto simp: generateSummary_def generateExplanation_def generateFeedbackOnQuiz_def
      split: option.splits sum.splits)


theorem display_operations_settle_witness:
  "MIN_CONTENT_LENGTH_FOR_GENERATION \<le> length long_text
   \<and> generateContent (rejecting_client ''boom'') (calls w0) (summary_request long_text) = Inl ''boom''
   \<and> fst (generateSummary (Some (rejecting_client ''boom'')) long_text w0)
        = Inr ''Failed to generate summary. Please try again.''
   \<and> fst (generateExplanation (Some (rejecting_client ''boom'')) long_text w0)
        = Inr ''Failed to generate explanation. Please try again.''
   \<and> fst (generateFeedbackOnQuiz (Some (rejecting_client ''boom'')) 3 5 None w0) = Inl (Rejected ''boom'')"
proof -
  have l: "MIN_CONTENT_LENGTH_FOR_GENERATION \<le> length long_text"
    by (simp add: MIN_CONTENT_LENGTH_FOR_GENERATION_def long_text_def)
  have a: "generateContent (rejecting_client ''boom'') (calls w0) (summary_request long_text) = Inl ''boom''"
    and b: "generateContent (rejecting_client ''boom'') (calls w0) (explanation_request long_text) = Inl ''boom''"
    and d: "generateContent (rejecting_client ''boom'') (calls w0) (feedback_request 3 5 None) = Inl ''boom''"
    by (simp_all add: rejecting_client_def)
  show ?thesis
    using l a b d
      display_operations_settle [where c = "rejecting_client ''boom''" and source = long_text and w = w0
        and err = "''boom''" and score = 3 and total_questions = 5 and material = None]
    by blast
qed

text \<open>
  Claim C2 as written fails on this run: the client rejects the call, and the rejection
  comes out of \<open>generateFeedbackOnQuiz\<close>.
\<close>

theorem feedback_rejects_counterexample:
  "fst (generateFeedbackOnQuiz (Some (rejecting_client ''boom'')) 3 5 None w0) = Inl (Rejected ''boom'')"
  by (simp add: generateFeedbackOnQuiz_def rejecting_client_def)







subsection \<open>Strings and numerals of the JSON text\<close>

lemma char_eq_code: "(c = d) = ((of_char c :: nat) = of_char d)"
  by simp

lemma hex_val_hex_char: "k < 16 \<Longrightarrow> hex_val (hex_char k) = Some k"
  by (auto simp: hex_val_def hex_char_def Let_def)

lemma hex4_roundtrip:
  assumes "(of_char c :: nat) < 32"
  shows "hex4 (CHR ''0'') (CHR ''0'') (hex_char (of_char c div 16)) (hex_char (of_char c mod 16)) = Some c"
proof -
  let ?n = "of_char c :: nat"
  have a: "hex_val (hex_char (?n div 16)) = Some (?n div 16)"
    using assms by (intro hex_val_hex_char) simp
  have b: "hex_val (hex_char (?n mod 16)) = Some (?n mod 16)"
    by (intro hex_val_hex_char) simp
  have z: "hex_val (CHR ''0'') = Some 0"
    by (simp add: hex_val_def)
  have "char_of (16 * (?n div 16) + ?n mod 16) = c"
    by simp
  then show ?thesis
    by (simp add: hex4_def a b z)
qed

lemma parse_chars_escape: "parse_chars (escape_char c @ r) = cons_char c (parse_chars r)"
proof -
  let ?n = "of_char c :: nat"
  consider (quote) "?n = 34" | (bs) "?n = 92" | (b) "?n = 8" | (f) "?n = 12" | (n) "?n = 10"
    | (r) "?n = 13" | (t) "?n = 9" | (ctl) "?n < 32" "?n \<notin> {8, 12, 10, 13, 9}"
    | (plain) "32 \<le> ?n" "?n \<noteq> 34" "?n \<noteq> 92"
    by fastforce
  then show ?thesis
  proof cases
    case quote
    then have "c = CHR 0x22" by (simp add: char_eq_code)
    then show ?thesis by (simp add: escape_char_def unescape_def)
  next
    case bs
    then have "c = CHR 0x5C" by (simp add: char_eq_code)
    then show ?thesis by (simp add: escape_char_def unescape_def)
  next
    case b
    then have "c = char_of (8::nat)" by (metis char_of_char)
    then show ?thesis by (simp add: escape_char_def unescape_def)
  next
    case f
    then have "c = char_of (12::nat)" by (metis char_of_char)
    then show ?thesis by (simp add: escape_char_def unescape_def)
  next
    case n
    then have "c = char_of (10::nat)" by (metis char_of_char)
    then show ?thesis by (simp add: escape_char_def unescape_def)
  next
    case r
    then have "c = char_of (13::nat)" by (metis char_of_char)
    then show ?thesis by (simp add: escape_char_def unescape_def)
  next
    case t
    then have "c = char_of (9::nat)" by (metis char_of_char)
    then show ?thesis by (simp add: escape_char_def unescape_def)
  next
    case ctl
    have q: "c \<noteq> CHR 0x22" "c \<noteq> CHR 0x5C"
      using ctl(1) by (auto simp: char_eq_code)
    show ?thesis
      using ctl q hex4_roundtrip [OF ctl(1)] by (simp add: escape_char_def Let_def)
  next
    case plain
    have q: "c \<noteq> CHR 0x22" "c \<noteq> CHR 0x5C"
      using plain by (auto simp: char_eq_code)
    show ?thesis
      using plain q by (simp add: escape_char_def Let_def)
  qed
qed

lemma parse_chars_quoted:
  "parse_chars (concat (map escape_char s) @ CHR 0x22 # rest) = Some (s, rest)"
  by (induction s) (simp_all add: parse_chars_escape cons_char_def del: parse_chars.simps, simp)


lemma is_digit_code: "is_digit c = (48 \<le> (of_char c :: nat) \<and> (of_char c :: nat) \<le> 57)"
  by (simp add: is_digit_def Let_def)

lemma value_head_facts:
  assumes "value_head c"
  shows "\<not> json_space c" "\<not> js_space c" "c \<noteq> CHR '']''" "c \<noteq> CHR ''}''" "c \<noteq> CHR '',''" "c \<noteq> CHR '':''"
  using assms by (auto simp: value_head_def json_space_def js_space_def is_digit_code)

lemma plain_integer_facts:
  assumes "plain_integer l"
  shows "json_number l" "list_all numchar l" "\<exists>c s. l = c # s \<and> (c = CHR ''-'' \<or> is_digit c)"
proof -
  let ?ds = "case l of [] \<Rightarrow> l | c # r \<Rightarrow> if c = CHR ''-'' then r else l"
  show "json_number l"
  proof (cases "l = ''0''")
    case True
    then show ?thesis
      by (simp add: json_number_def is_digit_code fraction_ok_def)
  next
    case False
    then have d: "?ds \<noteq> []" "list_all is_digit ?ds" "hd ?ds \<noteq> CHR ''0''"
      using assms by (simp_all add: plain_integer_def Let_def)
    have t: "takeWhile is_digit ?ds = ?ds" and r: "dropWhile is_digit ?ds = []"
      using d(2) by (simp_all add: list_all_iff)
    show ?thesis
      unfolding json_number_def Let_def t r using d by (simp add: fraction_ok_def)
  qed
  show "list_all numchar l"
  proof (cases "l = ''0''")
    case True
    then show ?thesis by (simp add: numchar_def is_digit_code)
  next
    case False
    then have d: "?ds \<noteq> []" "list_all is_digit ?ds"
      using assms by (simp_all add: plain_integer_def Let_def)
    then show ?thesis
      by (cases l) (auto simp: numchar_def list_all_iff split: if_splits)
  qed
  show "\<exists>c s. l = c # s \<and> (c = CHR ''-'' \<or> is_digit c)"
  proof (cases "l = ''0''")
    case True
    then show ?thesis by (simp add: is_digit_code)
  next
    case False
    then have d: "?ds \<noteq> []" "list_all is_digit ?ds"
      using assms by (simp_all add: plain_integer_def Let_def)
    then show ?thesis
      by (cases l) (auto split: if_splits)
  qed
qed

lemma parse_number_plain:
  assumes "plain_integer l" and "\<not> num_follows rest"
  shows "parse_number (l @ rest) = Some (JNum l, rest)"
proof -
  have a: "list_all numchar l"
    using plain_integer_facts(2) [OF assms(1)] .
  have t: "takeWhile numchar (l @ rest) = l"
  proof (cases rest)
    case Nil
    then show ?thesis using a by (simp add: list_all_iff)
  next
    case (Cons c r)
    then have "\<not> numchar c" using assms(2) by (simp add: num_follows_def)
    then show ?thesis using a Cons by (simp add: list_all_iff takeWhile_append2)
  qed
  have d: "dropWhile numchar (l @ rest) = rest"
  proof (cases rest)
    case Nil
    then show ?thesis using a by (simp add: list_all_iff)
  next
    case (Cons c r)
    then have "\<not> numchar c" using assms(2) by (simp add: num_follows_def)
    then show ?thesis using a Cons by (simp add: list_all_iff dropWhile_append2)
  qed
  show ?thesis
    unfolding parse_number_def Let_def t d using plain_integer_facts(1) [OF assms(1)] by simp
qed


lemma skip_ws_head: "\<not> json_space c \<Longrightarrow> skip_ws (c # s) = c # s"
  by (simp add: skip_ws_def)

lemma stringify_head:
  "canonical v \<Longrightarrow> \<exists>c s. stringify v = c # s \<and> value_head c"
proof (cases v)
  case (JNum l)
  assume "canonical v"
  then have "plain_integer l" using JNum by simp
  from plain_integer_facts(3) [OF this] show ?thesis
    using JNum by (auto simp: value_head_def)
qed (auto simp: value_head_def QuoteJSONString_def)

lemma stringify_elements_head:
  assumes "canonical_elements vs" and "vs \<noteq> []"
  shows "\<exists>c s. stringify_elements vs = c # s \<and> value_head c"
proof -
  from assms obtain v us where vs: "vs = v # us" and cv: "canonical v"
    by (cases vs) auto
  from stringify_head [OF cv] obtain c s where "stringify v = c # s" "value_head c"
    by blast
  then show ?thesis
    unfolding vs by (cases us) auto
qed

lemma stringify_members_head:
  assumes "ms \<noteq> []"
  shows "\<exists>s. stringify_members ms = CHR 0x22 # s"
proof -
  from assms obtain k v us where "ms = (k, v) # us"
    by (cases ms) auto
  then show ?thesis
    by (cases us) (auto simp: QuoteJSONString_def)
qed

lemma parse_value_array:
  "parse_value (Suc n) (CHR ''['' # c1 # r1) =
     (if json_space c1 then parse_value (Suc n) (CHR ''['' # r1)
      else if c1 = CHR '']'' then Some (JArr [], r1)
      else (case parse_elements n (c1 # r1) of None \<Rightarrow> None | Some (vs, rest) \<Rightarrow> Some (JArr vs, rest)))"
  by (simp add: skip_ws_def)

lemma parse_value_object:
  "parse_value (Suc n) (CHR ''{'' # c1 # r1) =
     (if json_space c1 then parse_value (Suc n) (CHR ''{'' # r1)
      else if c1 = CHR ''}'' then Some (JObj [], r1)
      else (case parse_members n (c1 # r1) of None \<Rightarrow> None | Some (ms, rest) \<Rightarrow> Some (JObj (members_of ms), rest)))"
  by (simp add: skip_ws_def)

lemma parse_value_string:
  "parse_value (Suc n) (CHR 0x22 # r) =
     (case parse_chars r of None \<Rightarrow> None | Some (str, rest) \<Rightarrow> Some (JStr str, rest))"
  by simp

lemma parse_value_literals:
  "parse_value (Suc n) (''null'' @ rest) = Some (JNull, rest)"
  "parse_value (Suc n) (''true'' @ rest) = Some (JBool True, rest)"
  "parse_value (Suc n) (''false'' @ rest) = Some (JBool False, rest)"
  by (simp_all add: startsWith_def)

lemma parse_value_number:
  assumes "c = CHR ''-'' \<or> is_digit c"
  shows "parse_value (Suc n) (c # s) = parse_number (c # s)"
proof -
  have "c \<noteq> CHR ''[''" "c \<noteq> CHR ''{''" "c \<noteq> CHR 0x22" "c \<noteq> CHR ''t''" "c \<noteq> CHR ''f''" "c \<noteq> CHR ''n''"
    using assms by (auto simp: is_digit_code)
  then show ?thesis
    using assms by (simp add: startsWith_def)
qed

lemma parse_elements_step:
  "parse_elements (Suc n) s =
     (case parse_value n s of
        None \<Rightarrow> None
      | Some (v, r) \<Rightarrow>
          (case skip_ws r of
             [] \<Rightarrow> None
           | c # r1 \<Rightarrow>
               if c = CHR '','' then
                 (case parse_elements n (skip_ws r1) of
                    None \<Rightarrow> None | Some (vs, rest) \<Rightarrow> Some (v # vs, rest))
               else if c = CHR '']'' then Some ([v], r1)
               else None))"
  by simp

lemma parse_members_step:
  "parse_members (Suc n) (CHR 0x22 # r0) =
     (case parse_chars r0 of
        None \<Rightarrow> None
      | Some (k, r) \<Rightarrow>
          (case skip_ws r of
             [] \<Rightarrow> None
           | c # r1 \<Rightarrow>
               if c \<noteq> CHR '':'' then None
               else
                 (case parse_value n (skip_ws r1) of
                    None \<Rightarrow> None
                  | Some (v, r2) \<Rightarrow>
                      (case skip_ws r2 of
                         [] \<Rightarrow> None
                       | c2 # r3 \<Rightarrow>
                           if c2 = CHR '','' then
                             (case parse_members n (skip_ws r3) of
                                None \<Rightarrow> None | Some (ms, rest) \<Rightarrow> Some ((k, v) # ms, rest))
                           else if c2 = CHR ''}'' then Some ([(k, v)], r3)
                           else None))))"
  by simp

lemma put_member_fresh: "k \<notin> fst ` set acc \<Longrightarrow> put_member k v acc = acc @ [(k, v)]"
  by (induction acc) auto

lemma members_of_distinct_aux:
  "distinct (map fst (acc @ ms))
   \<Longrightarrow> foldl (\<lambda>acc m. put_member (fst m) (snd m) acc) acc ms = acc @ ms"
proof (induction ms arbitrary: acc)
  case Nil
  show ?case by simp
next
  case (Cons m ms)
  have "fst m \<notin> fst ` set acc"
    using Cons.prems by auto
  then have "put_member (fst m) (snd m) acc = acc @ [m]"
    by (simp add: put_member_fresh)
  moreover have "distinct (map fst ((acc @ [m]) @ ms))"
    using Cons.prems by simp
  ultimately show ?case
    using Cons.IH [of "acc @ [m]"] by simp
qed

lemma members_of_distinct: "distinct (map fst ms) \<Longrightarrow> members_of ms = ms"
  using members_of_distinct_aux [of "[]" ms] by (simp add: members_of_def)


subsection \<open>Parsing a serialized value\<close>

declare parse_value.simps [simp del] parse_elements.simps [simp del] parse_members.simps [simp del]

lemma parse_roundtrip_all:
  "(canonical v \<longrightarrow> (\<forall>n rest. length (stringify v) \<le> n \<longrightarrow> \<not> num_follows rest
        \<longrightarrow> parse_value n (stringify v @ rest) = Some (v, rest)))"
  "(canonical_elements vs \<longrightarrow> vs \<noteq> [] \<longrightarrow> (\<forall>n rest. length (stringify_elements vs) \<le> n
        \<longrightarrow> parse_elements n (stringify_elements vs @ rest) = Some (vs, rest)))"
  "(canonical_members ms \<longrightarrow> ms \<noteq> [] \<longrightarrow> (\<forall>n rest. length (stringify_members ms) \<le> n
        \<longrightarrow> parse_members n (stringify_members ms @ rest) = Some (ms, rest)))"
proof (induction v and vs and ms rule: stringify_stringify_elements_stringify_members.induct)
  case 1
  show ?case
  proof (intro impI allI)
    fix n rest assume "length (stringify JNull) \<le> n"
    then obtain m where "n = Suc m" by (cases n) auto
    then show "parse_value n (stringify JNull @ rest) = Some (JNull, rest)"
      using parse_value_literals(1) [of m rest] by simp
  qed
next
  case (2 b)
  show ?case
  proof (intro impI allI)
    fix n rest assume "length (stringify (JBool b)) \<le> n"
    then obtain m where "n = Suc m" by (cases n) (auto split: if_splits)
    then show "parse_value n (stringify (JBool b) @ rest) = Some (JBool b, rest)"
      using parse_value_literals(2,3) [of m rest] by simp
  qed
next
  case (3 l)
  show ?case
  proof (intro impI allI)
    fix n rest
    assume c: "canonical (JNum l)" and len: "length (stringify (JNum l)) \<le> n" and nf: "\<not> num_follows rest"
    from c have p: "plain_integer l" by simp
    from plain_integer_facts(3) [OF p] obtain c s where l: "l = c # s" and h: "c = CHR ''-'' \<or> is_digit c"
      by blast
    from len l obtain m where n: "n = Suc m" by (cases n) auto
    have "parse_value (Suc m) (c # (s @ rest)) = parse_number (c # (s @ rest))"
      using parse_value_number [OF h] .
    then show "parse_value n (stringify (JNum l) @ rest) = Some (JNum l, rest)"
      using parse_number_plain [OF p nf] n l by simp
  qed
next
  case (4 s)
  show ?case
  proof (intro impI allI)
    fix n rest assume "length (stringify (JStr s)) \<le> n"
    then obtain m where "n = Suc m" by (cases n) (auto simp: QuoteJSONString_def)
    then show "parse_value n (stringify (JStr s) @ rest) = Some (JStr s, rest)"
      by (simp add: QuoteJSONString_def parse_value_string parse_chars_quoted)
  qed
next
  case (5 vs)
  show ?case
  proof (intro impI allI)
    fix n rest
    assume c: "canonical (JArr vs)" and len: "length (stringify (JArr vs)) \<le> n"
    from len obtain m where n: "n = Suc m" and lm: "length (stringify_elements vs) \<le> m"
      by (cases n) auto
    show "parse_value n (stringify (JArr vs) @ rest) = Some (JArr vs, rest)"
    proof (cases "vs = []")
      case True
      then show ?thesis
        using n by (simp add: parse_value_array json_space_def)
    next
      case False
      from c have ce: "canonical_elements vs" by simp
      from stringify_elements_head [OF ce False] obtain c1 s1
        where e: "stringify_elements vs = c1 # s1" and h: "value_head c1" by blast
      have "parse_elements m (stringify_elements vs @ rest) = Some (vs, rest)"
        using "5.IH" ce False lm by blast
      then show ?thesis
        using n e value_head_facts(1,3) [OF h] by (simp add: parse_value_array)
    qed
  qed
next
  case (6 ms)
  show ?case
  proof (intro impI allI)
    fix n rest
    assume c: "canonical (JObj ms)" and len: "length (stringify (JObj ms)) \<le> n"
    from len obtain m where n: "n = Suc m" and lm: "length (stringify_members ms) \<le> m"
      by (cases n) auto
    show "parse_value n (stringify (JObj ms) @ rest) = Some (JObj ms, rest)"
    proof (cases "ms = []")
      case True
      then show ?thesis
        using n by (simp add: parse_value_object json_space_def)
    next
      case False
      from c have cm: "canonical_members ms" and d: "distinct (map fst ms)" by simp_all
      from stringify_members_head [OF False] obtain s1
        where e: "stringify_members ms = CHR 0x22 # s1" by blast
      have "parse_members m (stringify_members ms @ rest) = Some (ms, rest)"
        using "6.IH" cm False lm by blast
      then show ?thesis
        using n e members_of_distinct [OF d] by (simp add: parse_value_object json_space_def)
    qed
  qed
next
  case 7
  show ?case by simp
next
  case (8 v)
  show ?case
  proof (intro impI allI)
    fix n rest
    assume c: "canonical_elements [v]" and len: "length (stringify_elements [v]) \<le> n"
    from len obtain m where n: "n = Suc m" and lm: "length (stringify v) \<le> m"
      by (cases n) auto
    have nf: "\<not> num_follows (CHR '']'' # rest)"
      by (simp add: num_follows_def numchar_def is_digit_code)
    have "parse_value m (stringify v @ CHR '']'' # rest) = Some (v, CHR '']'' # rest)"
      using "8.IH" c lm nf by simp
    then show "parse_elements n (stringify_elements [v] @ rest) = Some ([v], rest)"
      using n by (simp add: parse_elements_step skip_ws_def json_space_def)
  qed
next
  case (9 v u vs)
  show ?case
  proof (intro impI allI)
    fix n rest
    assume c: "canonical_elements (v # u # vs)" and len: "length (stringify_elements (v # u # vs)) \<le> n"
    from len obtain m where n: "n = Suc m" and lv: "length (stringify v) \<le> m"
      and le: "length (stringify_elements (u # vs)) \<le> m"
      by (cases n) auto
    from c have cv: "canonical v" and ce: "canonical_elements (u # vs)" by simp_all
    let ?tail = "stringify_elements (u # vs) @ rest"
    have nf: "\<not> num_follows (CHR '','' # ?tail)"
      by (simp add: num_follows_def numchar_def is_digit_code)
    have pv: "parse_value m (stringify v @ CHR '','' # ?tail) = Some (v, CHR '','' # ?tail)"
      using "9.IH"(1) cv lv nf by blast
    from stringify_elements_head [OF ce] obtain c1 s1
      where e: "stringify_elements (u # vs) = c1 # s1" and h: "value_head c1" by blast
    have sk: "skip_ws ?tail = ?tail"
      using e value_head_facts(1) [OF h] by (simp add: skip_ws_def)
    have pe: "parse_elements m ?tail = Some (u # vs, rest)"
      using "9.IH"(2) ce le by blast
    have "parse_elements (Suc m) (stringify v @ CHR '','' # ?tail) = Some (v # u # vs, rest)"
      by (subst parse_elements_step) (simp add: pv sk pe skip_ws_head json_space_def)
    then show "parse_elements n (stringify_elements (v # u # vs) @ rest) = Some (v # u # vs, rest)"
      using n by simp
  qed
next
  case 10
  show ?case by simp
next
  case (11 k v)
  show ?case
  proof (intro impI allI)
    fix n rest
    assume c: "canonical_members [(k, v)]" and len: "length (stringify_members [(k, v)]) \<le> n"
    from len obtain m where n: "n = Suc m" and lv: "length (stringify v) \<le> m"
      by (cases n) auto
    from c have cv: "canonical v" by simp
    have nf: "\<not> num_follows (CHR ''}'' # rest)"
      by (simp add: num_follows_def numchar_def is_digit_code)
    have pv: "parse_value m (stringify v @ CHR ''}'' # rest) = Some (v, CHR ''}'' # rest)"
      using "11.IH" cv lv nf by blast
    from stringify_head [OF cv] obtain c1 s1 where e: "stringify v = c1 # s1" and h: "value_head c1"
      by blast
    have sk: "skip_ws (stringify v @ CHR ''}'' # rest) = stringify v @ CHR ''}'' # rest"
      using e value_head_facts(1) [OF h] by (simp add: skip_ws_def)
    have "parse_members (Suc m) (CHR 0x22 # concat (map escape_char k) @ CHR 0x22 # CHR '':'' # stringify v @ CHR ''}'' # rest)
          = Some ([(k, v)], rest)"
      by (subst parse_members_step) (simp add: parse_chars_quoted skip_ws_head json_space_def sk pv)
    then show "parse_members n (stringify_members [(k, v)] @ rest) = Some ([(k, v)], rest)"
      using n by (simp add: QuoteJSONString_def)
  qed
next
  case (12 k v m' ms)
  show ?case
  proof (intro impI allI)
    fix n rest
    assume c: "canonical_members ((k, v) # m' # ms)"
      and len: "length (stringify_members ((k, v) # m' # ms)) \<le> n"
    from len obtain m where n: "n = Suc m" and lv: "length (stringify v) \<le> m"
      and le: "length (stringify_members (m' # ms)) \<le> m"
      by (cases n) auto
    from c have cv: "canonical v" and cm: "canonical_members (m' # ms)" by simp_all
    let ?tail = "stringify_members (m' # ms) @ rest"
    have nf: "\<not> num_follows (CHR '','' # ?tail)"
      by (simp add: num_follows_def numchar_def is_digit_code)
    have pv: "parse_value m (stringify v @ CHR '','' # ?tail) = Some (v, CHR '','' # ?tail)"
      using "12.IH"(1) cv lv nf by blast
    from stringify_head [OF cv] obtain c1 s1 where e: "stringify v = c1 # s1" and h: "value_head c1"
      by blast
    have sk: "skip_ws (stringify v @ CHR '','' # ?tail) = stringify v @ CHR '','' # ?tail"
      using e value_head_facts(1) [OF h] by (simp add: skip_ws_def)
    from stringify_members_head [of "m' # ms"] obtain s2
      where e2: "stringify_members (m' # ms) = CHR 0x22 # s2" by blast
    have sk2: "skip_ws ?tail = ?tail"
      using e2 by (simp add: skip_ws_def json_space_def)
    have pm: "parse_members m ?tail = Some (m' # ms, rest)"
      using "12.IH"(2) cm le by blast
    have "parse_members (Suc m) (CHR 0x22 # concat (map escape_char k) @ CHR 0x22 # CHR '':'' # stringify v @ CHR '','' # ?tail)
          = Some ((k, v) # m' # ms, rest)"
      by (subst parse_members_step) (simp add: parse_chars_quoted skip_ws_head json_space_def sk pv sk2 pm)
    then show "parse_members n (stringify_members ((k, v) # m' # ms) @ rest) = Some ((k, v) # m' # ms, rest)"
      using n by (simp add: QuoteJSONString_def)
  qed
qed


subsection \<open>The fence, the trimming and the repair\<close>

lemma parse_value_stringify:
  assumes "canonical v" and "length (stringify v) \<le> n" and "\<not> num_follows rest"
  shows "parse_value n (stringify v @ rest) = Some (v, rest)"
  using parse_roundtrip_all(1) [of v] assms by blast

lemma JSON_parse_stringify:
  assumes "canonical v"
  shows "JSON_parse (stringify v) = Some v"
proof -
  from stringify_head [OF assms] obtain c s where e: "stringify v = c # s" and h: "value_head c"
    by blast
  have sk: "skip_ws (stringify v) = stringify v"
    using e value_head_facts(1) [OF h] by (simp add: skip_ws_def)
  have "parse_value (Suc (length (stringify v))) (stringify v @ []) = Some (v, [])"
    by (rule parse_value_stringify [OF assms]) (simp_all add: num_follows_def)
  then show ?thesis
    by (simp add: JSON_parse_def sk) (simp add: skip_ws_def)
qed

lemma JSON_parse_trailing:
  assumes "canonical v" and "\<not> json_space x" and "\<not> numchar x"
  shows "JSON_parse (stringify v @ x # rest) = None"
proof -
  from stringify_head [OF assms(1)] obtain c s where e: "stringify v = c # s" and h: "value_head c"
    by blast
  have sk: "skip_ws (stringify v @ x # rest) = stringify v @ x # rest"
    using e value_head_facts(1) [OF h] by (simp add: skip_ws_def)
  have "parse_value (Suc (length (stringify v @ x # rest))) (stringify v @ x # rest) = Some (v, x # rest)"
    by (rule parse_value_stringify [OF assms(1)]) (use assms(3) in \<open>simp_all add: num_follows_def\<close>)
  moreover have "skip_ws (x # rest) \<noteq> []"
    using assms(2) by (simp add: skip_ws_def)
  ultimately show ?thesis
    by (simp add: JSON_parse_def sk)
qed

lemma trim_id:
  assumes "s \<noteq> []" and "\<not> js_space (hd s)" and "\<not> js_space (last s)"
  shows "trim s = s"
proof -
  have a: "dropWhile js_space s = s"
    using assms(1,2) by (cases s) simp_all
  have e: "rev s = last s # rev (butlast s)"
    using assms(1) by (simp add: rev_eq_Cons_iff)
  have "dropWhile js_space (last s # rev (butlast s)) = last s # rev (butlast s)"
    using assms(3) by simp
  then have "dropWhile js_space (rev s) = rev s"
    by (simp only: e)
  then show ?thesis
    by (simp add: trim_def a)
qed

lemma json_fence_tail_closing: "json_fence_tail (newline # backticks)"
  by (simp add: json_fence_tail_def backticks_def newline_def js_space_def)

lemma json_fence_tail_suffix:
  assumes "q \<noteq> []" and "\<not> js_space (last q)"
  shows "\<not> json_fence_tail (q @ newline # backticks)"
proof -
  have "take (length (q @ newline # backticks) - 3) (q @ newline # backticks) = q @ [newline]"
    by (simp add: backticks_def)
  moreover have "\<not> list_all js_space (q @ [newline])"
    using assms last_in_set [of q] by (auto simp: list_all_iff)
  ultimately show ?thesis
    by (simp add: json_fence_tail_def)
qed

lemma lazy_any_body:
  assumes "body = [] \<or> \<not> js_space (last body)"
  shows "lazy_any json_fence_tail (body @ newline # backticks) = Some body"
  using assms
proof (induction body)
  case Nil
  show ?case
    using json_fence_tail_closing by (simp add: backticks_def)
next
  case (Cons c cs)
  have l: "\<not> js_space (last (c # cs))"
    using Cons.prems by simp
  have "\<not> json_fence_tail ((c # cs) @ newline # backticks)"
    by (rule json_fence_tail_suffix) (use l in simp_all)
  moreover have "cs = [] \<or> \<not> js_space (last cs)"
    using l by (cases cs) simp_all
  ultimately show ?case
    using Cons.IH by simp
qed

lemma json_greedy_space_body:
  assumes "body \<noteq> []" and "\<not> js_space (hd body)" and "\<not> js_space (last body)"
  shows "json_greedy_space (newline # body @ newline # backticks) = Some body"
proof -
  obtain c cs where b: "body = c # cs"
    using assms(1) by (cases body) auto
  have n: "c \<noteq> newline"
    using assms(2) b by (auto simp: newline_def js_space_def)
  have "json_opt_newline (body @ newline # backticks) = Some body"
    using lazy_any_body [of body] assms(3) b n by (simp add: json_opt_newline_def)
  then have "json_greedy_space (body @ newline # backticks) = Some body"
    using assms(2) b by simp
  then show ?thesis
    by (simp add: newline_def js_space_def)
qed

lemma json_greedy_word_tag:
  assumes "list_all regex_word tag" and "json_greedy_space (newline # r) = Some g"
  shows "json_greedy_word (tag @ newline # r) = Some g"
  using assms(1)
proof (induction tag)
  case Nil
  have "\<not> regex_word newline"
    by (simp add: regex_word_def newline_def)
  then show ?case
    using assms(2) by simp
next
  case (Cons c cs)
  then show ?case by simp
qed

lemma json_fence_match_fenced:
  assumes "list_all regex_word tag" and "body \<noteq> []" and "\<not> js_space (hd body)" and "\<not> js_space (last body)"
  shows "json_fence_match (fenced tag body) = Some body"
proof -
  have "json_greedy_word (tag @ newline # body @ newline # backticks) = Some body"
    using json_greedy_word_tag [OF assms(1) json_greedy_space_body [OF assms(2,3,4)]] .
  then show ?thesis
    by (simp add: json_fence_match_def fenced_def startsWith_def backticks_def)
qed

lemma trim_fenced: "trim (fenced tag body) = fenced tag body"
  by (rule trim_id) (simp_all add: fenced_def backticks_def js_space_def)

lemma repair_id: "\<not> has_gap s \<Longrightarrow> repair s = s"
  by (induction s) simp_all

lemma parseJsonFromText_fenced:
  assumes "list_all regex_word tag" and "body \<noteq> []" and "\<not> js_space (hd body)" and "\<not> js_space (last body)"
  shows "parseJsonFromText (fenced tag body) = (case JSON_parse (repair body) of None \<Rightarrow> JNull | Some v \<Rightarrow> v)"
  using json_fence_match_fenced [OF assms] trim_id [OF assms(2,3,4)] assms(2)
  by (simp add: parseJsonFromText_def trim_fenced)


subsection \<open>The round trip\<close>


lemma stringify_members_last:
  "stringify_members ms \<noteq> [] \<and> last (stringify_members ms) = CHR ''}''"
  by (induction ms rule: induct_list012) auto








subsection \<open>The repair between adjacent objects\<close>

lemma gap_at_prefix:
  assumes "gap_at (c # p @ x # w)" and "\<not> js_space x" and "x \<noteq> CHR ''{''"
  shows "gap_at (c # p)"
proof (cases "list_all js_space p")
  case True
  then have "dropWhile js_space (p @ x # w) = x # w"
    using assms(2) by (simp add: list_all_iff dropWhile_append2)
  then show ?thesis
    using assms(1,3) by (simp add: gap_at_def)
next
  case False
  then have "dropWhile js_space (p @ x # w) = dropWhile js_space p @ x # w"
    by (auto simp: list_all_iff dropWhile_append1)
  moreover have "dropWhile js_space p \<noteq> []"
    using False by (auto simp: list_all_iff)
  ultimately show ?thesis
    using assms(1) by (cases "dropWhile js_space p") (simp_all add: gap_at_def)
qed

lemma repair_gap_free_prefix:
  assumes "\<not> has_gap p" and "\<not> js_space x" and "x \<noteq> CHR ''{''"
  shows "repair (p @ x # w) = p @ repair (x # w)"
  using assms(1)
proof (induction p)
  case Nil
  show ?case by simp
next
  case (Cons c p)
  then have "\<not> gap_at (c # p)" and "\<not> has_gap p"
    by simp_all
  then have "\<not> gap_at (c # p @ x # w)"
    using gap_at_prefix [OF _ assms(2,3)] by blast
  then show ?case
    using Cons.IH \<open>\<not> has_gap p\<close> by simp
qed

lemma gap_at_extend:
  assumes "gap_at s"
  shows "gap_at (s @ z)"
proof -
  from assms obtain cs r where s: "s = CHR ''}'' # cs" and d: "dropWhile js_space cs = CHR ''{'' # r"
    by (auto simp: gap_at_def split: list.splits)
  from d have "dropWhile js_space cs \<noteq> []"
    by simp
  then have "\<exists>x\<in>set cs. \<not> js_space x"
    by auto
  then have "dropWhile js_space (cs @ z) = dropWhile js_space cs @ z"
    by (auto simp: dropWhile_append1)
  then show ?thesis
    by (simp add: s d gap_at_def)
qed

lemma has_gap_extend: "has_gap s \<Longrightarrow> has_gap (s @ z)"
proof (induction s)
  case Nil
  then show ?case by simp
next
  case (Cons c s)
  then show ?case
    using gap_at_extend [of "c # s" z] by auto
qed

lemma has_gap_after_plain:
  "list_all (\<lambda>c. c \<noteq> CHR ''}'') pre \<Longrightarrow> has_gap (pre @ s) = has_gap s"
  by (induction pre) (simp_all add: gap_at_def)

text \<open>The repair between two adjacent objects puts the comma in, and only it.\<close>

lemma repair_adjacent:
  assumes "\<not> has_gap (p @ ''}'')" and "\<not> has_gap (CHR ''{'' # q)"
    and "list_all (\<lambda>c. c \<noteq> CHR ''}'') pre" and "\<not> js_space y" and "y \<noteq> CHR ''{''"
  shows "repair (pre @ (p @ ''}'') @ (CHR ''{'' # q) @ [y]) = pre @ (p @ ''}'') @ '','' @ (CHR ''{'' # q) @ [y]"
proof -
  have "\<not> has_gap p"
    using assms(1) has_gap_extend [of p "''}''"] by blast
  then have np: "\<not> has_gap (pre @ p)"
    using has_gap_after_plain [OF assms(3)] by simp
  have nq: "\<not> has_gap q"
    using assms(2) by simp
  have sp: "\<not> js_space (CHR ''}'')" "CHR ''}'' \<noteq> CHR ''{''" "\<not> js_space (CHR ''{'')"
    by (simp_all add: js_space_def)
  have "repair (pre @ (p @ ''}'') @ (CHR ''{'' # q) @ [y]) = repair ((pre @ p) @ CHR ''}'' # (CHR ''{'' # q @ [y]))"
    by simp
  also have "\<dots> = (pre @ p) @ repair (CHR ''}'' # (CHR ''{'' # q @ [y]))"
    by (rule repair_gap_free_prefix [OF np sp(1,2)])
  also have "repair (CHR ''}'' # (CHR ''{'' # q @ [y])) = ''},{'' @ repair (q @ [y])"
    using sp(3) by (simp add: gap_at_def)
  also have "repair (q @ [y]) = q @ repair [y]"
    using repair_gap_free_prefix [OF nq assms(4,5), of "[]"] by simp
  also have "repair [y] = [y]"
    by (simp add: gap_at_def)
  finally show ?thesis
    by simp
qed

lemma stringify_object_shape:
  "\<exists>p q. stringify (JObj ms) = p @ ''}'' \<and> stringify (JObj ms) = CHR ''{'' # q"
proof -
  have "stringify (JObj ms) \<noteq> []" and "last (stringify (JObj ms)) = CHR ''}''"
    using stringify_members_last [of ms] by simp_all
  then have "stringify (JObj ms) = butlast (stringify (JObj ms)) @ ''}''"
    by (metis append_butlast_last_id)
  then show ?thesis
    by (metis stringify.simps(6))
qed

lemma repair_adjacent_objects:
  assumes "\<not> has_gap (stringify (JObj ma))" and "\<not> has_gap (stringify (JObj mb))"
    and "list_all (\<lambda>c. c \<noteq> CHR ''}'') pre" and "\<not> js_space y" and "y \<noteq> CHR ''{''"
  shows "repair (pre @ stringify (JObj ma) @ stringify (JObj mb) @ [y])
         = pre @ stringify (JObj ma) @ '','' @ stringify (JObj mb) @ [y]"
proof -
  obtain p where a: "stringify (JObj ma) = p @ ''}''"
    using stringify_object_shape by blast
  obtain q where b: "stringify (JObj mb) = CHR ''{'' # q"
    using stringify_object_shape by blast
  show ?thesis
    unfolding a b using repair_adjacent [OF _ _ assms(3,4,5), of p q] assms(1,2) unfolding a b by blast
qed


subsection \<open>Adjacent objects in a fenced block\<close>

lemma repair_adjacent_bare:
  assumes "\<not> has_gap (p @ ''}'')" and "\<not> has_gap (CHR ''{'' # q)"
  shows "repair ((p @ ''}'') @ (CHR ''{'' # q)) = (p @ ''}'') @ '','' @ (CHR ''{'' # q)"
proof -
  have np: "\<not> has_gap p"
    using assms(1) has_gap_extend [of p "''}''"] by blast
  have nq: "\<not> has_gap q"
    using assms(2) by simp
  have sp: "\<not> js_space (CHR ''}'')" "CHR ''}'' \<noteq> CHR ''{''" "\<not> js_space (CHR ''{'')"
    by (simp_all add: js_space_def)
  have "repair ((p @ ''}'') @ (CHR ''{'' # q)) = repair (p @ CHR ''}'' # (CHR ''{'' # q))"
    by simp
  also have "\<dots> = p @ repair (CHR ''}'' # (CHR ''{'' # q))"
    by (rule repair_gap_free_prefix [OF np sp(1,2)])
  also have "repair (CHR ''}'' # (CHR ''{'' # q)) = ''},{'' @ repair q"
    using sp(3) by (simp add: gap_at_def)
  also have "repair q = q"
    by (rule repair_id [OF nq])
  finally show ?thesis
    by simp
qed

text \<open>
  Claim C3, as the code has it. For two serialized objects of the round trip, free of the
  repaired pattern inside, joined with nothing between them and wrapped in a fenced block:
  the repair puts a comma between them, \<open>JSON.parse\<close> refuses the text, and the result is
  \<open>null\<close>. When the two adjacent objects stand between \<open>[\<close> and \<open>]\<close>, the result is the
  array of both.
\<close>

theorem parseJsonFromText_adjacent_objects:
  assumes "canonical (JObj ma)" and "canonical (JObj mb)"
    and "\<not> has_gap (stringify (JObj ma))" and "\<not> has_gap (stringify (JObj mb))"
    and "list_all regex_word tag"
  shows "parseJsonFromText (fenced tag (stringify (JObj ma) @ stringify (JObj mb))) = JNull
         \<and> parseJsonFromText (fenced tag (''['' @ stringify (JObj ma) @ stringify (JObj mb) @ '']''))
             = JArr [JObj ma, JObj mb]"
proof
  define sa where "sa = stringify (JObj ma)"
  define sb where "sb = stringify (JObj mb)"
  obtain p where a: "sa = p @ ''}''"
    unfolding sa_def using stringify_object_shape by blast
  obtain q where b: "sb = CHR ''{'' # q"
    unfolding sb_def using stringify_object_shape by blast
  obtain q' where a': "sa = CHR ''{'' # q'"
    unfolding sa_def using stringify_object_shape by blast
  obtain p' where b': "sb = p' @ ''}''"
    unfolding sb_def using stringify_object_shape by blast
  have ga: "\<not> has_gap (p @ ''}'')" and gb: "\<not> has_gap (CHR ''{'' # q)"
    using assms(3,4) unfolding sa_def [symmetric] sb_def [symmetric] a b by simp_all
  have sp: "\<not> js_space (CHR ''{'')" "\<not> js_space (CHR ''}'')" "\<not> js_space (CHR ''['')" "\<not> js_space (CHR '']'')"
    by (simp_all add: js_space_def)
  show "parseJsonFromText (fenced tag (stringify (JObj ma) @ stringify (JObj mb))) = JNull"
  proof -
    have h: "sa @ sb \<noteq> []" "\<not> js_space (hd (sa @ sb))" "\<not> js_space (last (sa @ sb))"
      using sp by (simp_all add: a' b')
    have "repair (sa @ sb) = sa @ '','' @ sb"
      unfolding a b using repair_adjacent_bare [OF ga gb] by simp
    moreover have "JSON_parse (stringify (JObj ma) @ CHR '','' # sb) = None"
      by (rule JSON_parse_trailing [OF assms(1)]) (simp_all add: json_space_def numchar_def is_digit_code)
    ultimately have "JSON_parse (repair (sa @ sb)) = None"
      by (simp add: sa_def)
    then have "parseJsonFromText (fenced tag (sa @ sb)) = JNull"
      using parseJsonFromText_fenced [OF assms(5) h] by simp
    then show ?thesis
      by (simp only: sa_def sb_def)
  qed
  show "parseJsonFromText (fenced tag (''['' @ stringify (JObj ma) @ stringify (JObj mb) @ '']''))
          = JArr [JObj ma, JObj mb]"
  proof -
    let ?body = "''['' @ sa @ sb @ '']''"
    have h: "?body \<noteq> []" "\<not> js_space (hd ?body)" "\<not> js_space (last ?body)"
      using sp by simp_all
    have "repair (''['' @ (p @ ''}'') @ (CHR ''{'' # q) @ '']'')
          = ''['' @ (p @ ''}'') @ '','' @ (CHR ''{'' # q) @ '']''"
      by (rule repair_adjacent [OF ga gb]) (simp_all add: js_space_def)
    then have r: "repair ?body = ''['' @ sa @ '','' @ sb @ '']''"
      by (simp only: a [symmetric] b [symmetric])
    have e: "stringify (JArr [JObj ma, JObj mb]) = ''['' @ sa @ '','' @ sb @ '']''"
      by (simp add: sa_def sb_def)
    have "canonical (JArr [JObj ma, JObj mb])"
      using assms(1,2) by simp
    then have "JSON_parse (stringify (JArr [JObj ma, JObj mb])) = Some (JArr [JObj ma, JObj mb])"
      by (rule JSON_parse_stringify)
    then have "JSON_parse (repair ?body) = Some (JArr [JObj ma, JObj mb])"
      by (simp only: e r)
    then have "parseJsonFromText (fenced tag ?body) = JArr [JObj ma, JObj mb]"
      using parseJsonFromText_fenced [OF assms(5) h] by simp
    then show ?thesis
      by (simp only: sa_def sb_def)
  qed
qed

theorem parseJsonFromText_adjacent_objects_witness:
  "canonical (JObj object_a) \<and> canonical (JObj object_b)
   \<and> \<not> has_gap (stringify (JObj object_a)) \<and> \<not> has_gap (stringify (JObj object_b))
   \<and> list_all regex_word ''json''
   \<and> parseJsonFromText (fenced ''json'' (stringify (JObj object_a) @ stringify (JObj object_b))) = JNull
   \<and> parseJsonFromText (fenced ''json'' (''['' @ stringify (JObj object_a) @ stringify (JObj object_b) @ '']''))
       = JArr [JObj object_a, JObj object_b]"
proof -
  have ca: "canonical (JObj object_a)" and cb: "canonical (JObj object_b)"
    by code_simp+
  have ga: "\<not> has_gap (stringify (JObj object_a))" and gb: "\<not> has_gap (stringify (JObj object_b))"
    by code_simp+
  have t: "list_all regex_word ''json''"
    by code_simp
  show ?thesis
    using ca cb ga gb t parseJsonFromText_adjacent_objects [OF ca cb ga gb t] by blast
qed

text \<open>
  Claim C3 as written fails on this text, two objects with nothing between them in a
  fenced block: the result is \<open>null\<close>.
\<close>

theorem adjacent_objects_counterexample:
  "parseJsonFromText (fenced ''json'' (stringify (JObj [(''a'', JStr ''x'')]) @ stringify (JObj [(''b'', JStr ''y'')])))
   = JNull"
  by code_simp


subsection \<open>The bound of the parser\<close>

lemma parse_elements_SucE:
  assumes "parse_elements (Suc n) s = Some (vs, r)"
  obtains (more) v r0 r1 vs' where "parse_value n s = Some (v, r0)" and "skip_ws r0 = CHR '','' # r1"
      and "parse_elements n (skip_ws r1) = Some (vs', r)" and "vs = v # vs'"
    | (last) v r0 where "parse_value n s = Some (v, r0)" and "skip_ws r0 = CHR '']'' # r" and "vs = [v]"
  using assms
  by (auto simp: parse_elements.simps split: option.splits list.splits if_splits prod.splits)

lemma parse_members_SucE:
  assumes "parse_members (Suc n) s = Some (ms, r)"
  obtains (more) s0 k rk r1 v r2 r3 ms' where "s = CHR 0x22 # s0" and "parse_chars s0 = Some (k, rk)"
      and "skip_ws rk = CHR '':'' # r1" and "parse_value n (skip_ws r1) = Some (v, r2)"
      and "skip_ws r2 = CHR '','' # r3" and "parse_members n (skip_ws r3) = Some (ms', r)"
      and "ms = (k, v) # ms'"
    | (last) s0 k rk r1 v r2 where "s = CHR 0x22 # s0" and "parse_chars s0 = Some (k, rk)"
      and "skip_ws rk = CHR '':'' # r1" and "parse_value n (skip_ws r1) = Some (v, r2)"
      and "skip_ws r2 = CHR ''}'' # r" and "ms = [(k, v)]"
  using assms
  by (auto simp: parse_members.simps split: option.splits list.splits if_splits prod.splits)

lemma parse_value_SucE:
  assumes "parse_value (Suc n) s = Some (v, r)"
  obtains (empty_array) rs where "s = CHR ''['' # rs" and "skip_ws rs = CHR '']'' # r" and "v = JArr []"
    | (array) rs c1 r1 vs where "s = CHR ''['' # rs" and "skip_ws rs = c1 # r1" and "c1 \<noteq> CHR '']''"
        and "parse_elements n (c1 # r1) = Some (vs, r)" and "v = JArr vs"
    | (empty_object) rs where "s = CHR ''{'' # rs" and "skip_ws rs = CHR ''}'' # r" and "v = JObj []"
    | (object) rs c1 r1 ms where "s = CHR ''{'' # rs" and "skip_ws rs = c1 # r1" and "c1 \<noteq> CHR ''}''"
        and "parse_members n (c1 # r1) = Some (ms, r)" and "v = JObj (members_of ms)"
    | (flat) c rs where "s = c # rs" and "c \<noteq> CHR ''[''" and "c \<noteq> CHR ''{''"
  using assms
  by (cases s) (auto simp: parse_value.simps split: option.splits list.splits if_splits prod.splits)

lemma parse_value_flat:
  assumes "c \<noteq> CHR ''[''" and "c \<noteq> CHR ''{''"
  shows "parse_value (Suc n) (c # rs) = parse_value (Suc m) (c # rs)"
  using assms by (simp add: parse_value.simps)


lemma skip_ws_length: "length (skip_ws r) \<le> length r"
  by (simp add: skip_ws_def length_dropWhile_le)

lemma skip_ws_Cons_length: "skip_ws r = c # r1 \<Longrightarrow> length r1 < length r"
  using skip_ws_length [of r] by simp

lemma cons_char_SomeE:
  assumes "cons_char c x = Some (k, r)"
  obtains k' where "x = Some (k', r)" and "k = c # k'"
  using assms by (auto simp: cons_char_def split: option.splits)

lemma parse_chars_shorter: "parse_chars s = Some (k, r) \<Longrightarrow> length r < length s"
proof (induction "length s" arbitrary: s k rule: less_induct)
  case less
  note IH = less.hyps
  from less.prems obtain c cs where s: "s = c # cs"
    by (cases s) simp_all
  show ?case
  proof (cases "c = CHR 0x22")
    case True
    then show ?thesis using less.prems s by simp
  next
    case nq: False
    show ?thesis
    proof (cases "c = CHR 0x5C")
      case False
      with nq less.prems s have "cons_char c (parse_chars cs) = Some (k, r)"
        by (simp split: if_splits)
      then obtain k' where "parse_chars cs = Some (k', r)"
        by (rule cons_char_SomeE)
      then have "length r < length cs"
        using IH [of cs k'] s by simp
      then show ?thesis using s by simp
    next
      case bs: True
      then obtain e rr where cs: "cs = e # rr"
        using less.prems nq s by (cases cs) simp_all
      show ?thesis
      proof (cases "e = CHR ''u''")
        case True
        then obtain a b c' d r' ch where rr: "rr = a # b # c' # d # r'"
          and cc: "cons_char ch (parse_chars r') = Some (k, r)"
          using less.prems nq bs cs s by (auto split: list.splits option.splits)
        from cc obtain k' where "parse_chars r' = Some (k', r)"
          by (rule cons_char_SomeE)
        then have "length r < length r'"
          using IH [of r' k'] s cs rr by simp
        then show ?thesis using s cs rr by simp
      next
        case False
        then obtain ch where cc: "cons_char ch (parse_chars rr) = Some (k, r)"
          using less.prems nq bs cs s by (auto split: option.splits)
        from cc obtain k' where "parse_chars rr = Some (k', r)"
          by (rule cons_char_SomeE)
        then have "length r < length rr"
          using IH [of rr k'] s cs by simp
        then show ?thesis using s cs by simp
      qed
    qed
  qed
qed

lemma parse_number_shorter:
  assumes "parse_number s = Some (v, r)"
  shows "length r < length s"
proof -
  from assms have j: "json_number (takeWhile numchar s)" and r: "r = dropWhile numchar s"
    by (simp_all add: parse_number_def Let_def split: if_splits)
  have "takeWhile numchar s \<noteq> []"
    using j by (auto simp: json_number_def)
  then obtain c cs where s: "s = c # cs" and c: "numchar c"
    by (cases s) (auto split: if_splits)
  have "length (dropWhile numchar cs) \<le> length cs"
    by (rule length_dropWhile_le)
  then show ?thesis
    using r s c by simp
qed

lemma startsWith_length:
  assumes "startsWith s p"
  shows "length p \<le> length s"
proof -
  have "length (take (length p) s) = length p"
    using assms by (simp add: startsWith_def)
  then show ?thesis
    by simp
qed

lemma parse_value_flat_shorter:
  assumes "c \<noteq> CHR ''[''" and "c \<noteq> CHR ''{''" and "parse_value (Suc n) (c # rs) = Some (v, r)"
  shows "length r < length (c # rs)"
proof (cases "c = CHR 0x22")
  case True
  then obtain k where "parse_chars rs = Some (k, r)"
    using assms(3) by (auto simp: parse_value.simps split: option.splits)
  from parse_chars_shorter [OF this] show ?thesis by simp
next
  case nq: False
  show ?thesis
  proof (cases "startsWith (c # rs) ''true''")
    case True
    then have "r = drop 4 (c # rs)"
      using assms nq by (simp add: parse_value.simps)
    then show ?thesis
      using startsWith_length [OF True] by simp
  next
    case nt: False
    show ?thesis
    proof (cases "startsWith (c # rs) ''false''")
      case True
      then have "r = drop 5 (c # rs)"
        using assms nq nt by (simp add: parse_value.simps)
      then show ?thesis
        using startsWith_length [OF True] by simp
    next
      case nf: False
      show ?thesis
      proof (cases "startsWith (c # rs) ''null''")
        case True
        then have "r = drop 4 (c # rs)"
          using assms nq nt nf by (simp add: parse_value.simps)
        then show ?thesis
          using startsWith_length [OF True] by simp
      next
        case False
        then have "parse_number (c # rs) = Some (v, r)"
          using assms nq nt nf by (simp add: parse_value.simps split: if_splits)
        from parse_number_shorter [OF this] show ?thesis .
      qed
    qed
  qed
qed


lemma parse_value_arrayI:
  "skip_ws rs = CHR '']'' # r \<Longrightarrow> parse_value (Suc m) (CHR ''['' # rs) = Some (JArr [], r)"
  "skip_ws rs = c1 # r1 \<Longrightarrow> c1 \<noteq> CHR '']'' \<Longrightarrow> parse_elements m (c1 # r1) = Some (vs, r)
     \<Longrightarrow> parse_value (Suc m) (CHR ''['' # rs) = Some (JArr vs, r)"
  by (simp_all add: parse_value.simps)

lemma parse_value_objectI:
  "skip_ws rs = CHR ''}'' # r \<Longrightarrow> parse_value (Suc m) (CHR ''{'' # rs) = Some (JObj [], r)"
  "skip_ws rs = c1 # r1 \<Longrightarrow> c1 \<noteq> CHR ''}'' \<Longrightarrow> parse_members m (c1 # r1) = Some (ms, r)
     \<Longrightarrow> parse_value (Suc m) (CHR ''{'' # rs) = Some (JObj (members_of ms), r)"
  by (simp_all add: parse_value.simps)

lemma parse_elementsI:
  "parse_value m s = Some (v, r0) \<Longrightarrow> skip_ws r0 = CHR '','' # r1
     \<Longrightarrow> parse_elements m (skip_ws r1) = Some (vs, r) \<Longrightarrow> parse_elements (Suc m) s = Some (v # vs, r)"
  "parse_value m s = Some (v, r0) \<Longrightarrow> skip_ws r0 = CHR '']'' # r
     \<Longrightarrow> parse_elements (Suc m) s = Some ([v], r)"
  by (simp_all add: parse_elements.simps)

lemma parse_membersI:
  "parse_chars s0 = Some (k, rk) \<Longrightarrow> skip_ws rk = CHR '':'' # r1
     \<Longrightarrow> parse_value m (skip_ws r1) = Some (v, r2) \<Longrightarrow> skip_ws r2 = CHR '','' # r3
     \<Longrightarrow> parse_members m (skip_ws r3) = Some (ms, r)
     \<Longrightarrow> parse_members (Suc m) (CHR 0x22 # s0) = Some ((k, v) # ms, r)"
  "parse_chars s0 = Some (k, rk) \<Longrightarrow> skip_ws rk = CHR '':'' # r1
     \<Longrightarrow> parse_value m (skip_ws r1) = Some (v, r2) \<Longrightarrow> skip_ws r2 = CHR ''}'' # r
     \<Longrightarrow> parse_members (Suc m) (CHR 0x22 # s0) = Some ([(k, v)], r)"
  by (simp_all add: parse_members.simps)

text \<open>
  A successful call has read at least one character, and succeeds with the same result
  whenever its bound is at least the number of characters it has read.
\<close>

lemma parse_fuel_main:
  "(\<forall>s v r. parse_value n s = Some (v, r)
       \<longrightarrow> length r < length s \<and> (\<forall>m. length s - length r \<le> m \<longrightarrow> parse_value m s = Some (v, r)))
   \<and> (\<forall>s vs r. parse_elements n s = Some (vs, r)
       \<longrightarrow> length r < length s \<and> (\<forall>m. length s - length r \<le> m \<longrightarrow> parse_elements m s = Some (vs, r)))
   \<and> (\<forall>s ms r. parse_members n s = Some (ms, r)
       \<longrightarrow> length r < length s \<and> (\<forall>m. length s - length r \<le> m \<longrightarrow> parse_members m s = Some (ms, r)))"
proof (induction n)
  case 0
  show ?case
    by (simp add: parse_value.simps parse_elements.simps parse_members.simps)
next
  case (Suc n)
  have V: "length r < length s" "\<And>m. length s - length r \<le> m \<Longrightarrow> parse_value m s = Some (v, r)"
    if "parse_value n s = Some (v, r)" for s v r
    using Suc.IH that by blast+
  have E: "length r < length s" "\<And>m. length s - length r \<le> m \<Longrightarrow> parse_elements m s = Some (vs, r)"
    if "parse_elements n s = Some (vs, r)" for s vs r
    using Suc.IH that by blast+
  have M: "length r < length s" "\<And>m. length s - length r \<le> m \<Longrightarrow> parse_members m s = Some (ms, r)"
    if "parse_members n s = Some (ms, r)" for s ms r
    using Suc.IH that by blast+
  have for_value: "length r < length s \<and> (\<forall>m. length s - length r \<le> m \<longrightarrow> parse_value m s = Some (v, r))"
    if a: "parse_value (Suc n) s = Some (v, r)" for s v r
    using a
  proof (cases rule: parse_value_SucE)
    case (empty_array rs)
    have l: "length r < length rs"
      using skip_ws_Cons_length [OF empty_array(2)] .
    have "parse_value m s = Some (v, r)" if "length s - length r \<le> m" for m
    proof -
      from that l empty_array(1) obtain m' where "m = Suc m'"
        by (cases m) auto
      then show ?thesis
        using parse_value_arrayI(1) [OF empty_array(2)] empty_array(1,3) by simp
    qed
    then show ?thesis
      using l empty_array(1) by simp
  next
    case (array rs c1 r1 vs)
    have l1: "length (c1 # r1) \<le> length rs"
      using skip_ws_length [of rs] array(2) by simp
    have l2: "length r < length (c1 # r1)"
      using E(1) [OF array(4)] .
    have "parse_value m s = Some (v, r)" if "length s - length r \<le> m" for m
    proof -
      from that l1 l2 array(1) obtain m' where m: "m = Suc m'" and "length (c1 # r1) - length r \<le> m'"
        by (cases m) auto
      then have "parse_elements m' (c1 # r1) = Some (vs, r)"
        using E(2) [OF array(4)] by blast
      then show ?thesis
        using parse_value_arrayI(2) [OF array(2,3)] array(1,5) m by simp
    qed
    then show ?thesis
      using l1 l2 array(1) by simp
  next
    case (empty_object rs)
    have l: "length r < length rs"
      using skip_ws_Cons_length [OF empty_object(2)] .
    have "parse_value m s = Some (v, r)" if "length s - length r \<le> m" for m
    proof -
      from that l empty_object(1) obtain m' where "m = Suc m'"
        by (cases m) auto
      then show ?thesis
        using parse_value_objectI(1) [OF empty_object(2)] empty_object(1,3) by simp
    qed
    then show ?thesis
      using l empty_object(1) by simp
  next
    case (object rs c1 r1 ms)
    have l1: "length (c1 # r1) \<le> length rs"
      using skip_ws_length [of rs] object(2) by simp
    have l2: "length r < length (c1 # r1)"
      using M(1) [OF object(4)] .
    have "parse_value m s = Some (v, r)" if "length s - length r \<le> m" for m
    proof -
      from that l1 l2 object(1) obtain m' where m: "m = Suc m'" and "length (c1 # r1) - length r \<le> m'"
        by (cases m) auto
      then have "parse_members m' (c1 # r1) = Some (ms, r)"
        using M(2) [OF object(4)] by blast
      then show ?thesis
        using parse_value_objectI(2) [OF object(2,3)] object(1,5) m by simp
    qed
    then show ?thesis
      using l1 l2 object(1) by simp
  next
    case (flat c rs)
    have l: "length r < length s"
      using parse_value_flat_shorter [OF flat(2,3)] a flat(1) by simp
    have "parse_value m s = Some (v, r)" if "length s - length r \<le> m" for m
    proof -
      from that l obtain m' where "m = Suc m'"
        by (cases m) auto
      then show ?thesis
        using parse_value_flat [OF flat(2,3), of m' rs n] a flat(1) by simp
    qed
    then show ?thesis
      using l by simp
  qed
  have for_elements: "length r < length s \<and> (\<forall>m. length s - length r \<le> m \<longrightarrow> parse_elements m s = Some (vs, r))"
    if a: "parse_elements (Suc n) s = Some (vs, r)" for s vs r
    using a
  proof (cases rule: parse_elements_SucE)
    case (more v r0 r1 vs')
    have l0: "length r0 < length s"
      using V(1) [OF more(1)] .
    have l1: "length r1 < length r0"
      using skip_ws_Cons_length [OF more(2)] .
    have l2: "length r < length (skip_ws r1)"
      using E(1) [OF more(3)] .
    have l3: "length (skip_ws r1) \<le> length r1"
      by (rule skip_ws_length)
    have "parse_elements m s = Some (vs, r)" if "length s - length r \<le> m" for m
    proof -
      from that l0 l1 l2 l3 obtain m' where m: "m = Suc m'" and "length s - length r0 \<le> m'"
        and "length (skip_ws r1) - length r \<le> m'"
        by (cases m) auto
      then have "parse_value m' s = Some (v, r0)" and "parse_elements m' (skip_ws r1) = Some (vs', r)"
        using V(2) [OF more(1)] E(2) [OF more(3)] by blast+
      then show ?thesis
        using parse_elementsI(1) [OF _ more(2)] more(4) m by simp
    qed
    then show ?thesis
      using l0 l1 l2 l3 by simp
  next
    case (last v r0)
    have l0: "length r0 < length s"
      using V(1) [OF last(1)] .
    have l1: "length r < length r0"
      using skip_ws_Cons_length [OF last(2)] .
    have "parse_elements m s = Some (vs, r)" if "length s - length r \<le> m" for m
    proof -
      from that l0 l1 obtain m' where m: "m = Suc m'" and "length s - length r0 \<le> m'"
        by (cases m) auto
      then have "parse_value m' s = Some (v, r0)"
        using V(2) [OF last(1)] by blast
      then show ?thesis
        using parse_elementsI(2) [OF _ last(2)] last(3) m by simp
    qed
    then show ?thesis
      using l0 l1 by simp
  qed
  have for_members: "length r < length s \<and> (\<forall>m. length s - length r \<le> m \<longrightarrow> parse_members m s = Some (ms, r))"
    if a: "parse_members (Suc n) s = Some (ms, r)" for s ms r
    using a
  proof (cases rule: parse_members_SucE)
    case (more s0 k rk r1 v r2 r3 ms')
    have lk: "length rk < length s0"
      using parse_chars_shorter [OF more(2)] .
    have l1: "length r1 < length rk"
      using skip_ws_Cons_length [OF more(3)] .
    have lw: "length (skip_ws r1) \<le> length r1"
      by (rule skip_ws_length)
    have l2: "length r2 < length (skip_ws r1)"
      using V(1) [OF more(4)] .
    have l3: "length r3 < length r2"
      using skip_ws_Cons_length [OF more(5)] .
    have lw3: "length (skip_ws r3) \<le> length r3"
      by (rule skip_ws_length)
    have l4: "length r < length (skip_ws r3)"
      using M(1) [OF more(6)] .
    have "parse_members m s = Some (ms, r)" if "length s - length r \<le> m" for m
    proof -
      from that lk l1 lw l2 l3 lw3 l4 more(1) obtain m' where m: "m = Suc m'"
        and "length (skip_ws r1) - length r2 \<le> m'" and "length (skip_ws r3) - length r \<le> m'"
        by (cases m) auto
      then have "parse_value m' (skip_ws r1) = Some (v, r2)" and "parse_members m' (skip_ws r3) = Some (ms', r)"
        using V(2) [OF more(4)] M(2) [OF more(6)] by blast+
      then show ?thesis
        using parse_membersI(1) [OF more(2,3) _ more(5)] more(1,7) m by simp
    qed
    then show ?thesis
      using lk l1 lw l2 l3 lw3 l4 more(1) by simp
  next
    case (last s0 k rk r1 v r2)
    have lk: "length rk < length s0"
      using parse_chars_shorter [OF last(2)] .
    have l1: "length r1 < length rk"
      using skip_ws_Cons_length [OF last(3)] .
    have lw: "length (skip_ws r1) \<le> length r1"
      by (rule skip_ws_length)
    have l2: "length r2 < length (skip_ws r1)"
      using V(1) [OF last(4)] .
    have l3: "length r < length r2"
      using skip_ws_Cons_length [OF last(5)] .
    have "parse_members m s = Some (ms, r)" if "length s - length r \<le> m" for m
    proof -
      from that lk l1 lw l2 l3 last(1) obtain m' where m: "m = Suc m'"
        and "length (skip_ws r1) - length r2 \<le> m'"
        by (cases m) auto
      then have "parse_value m' (skip_ws r1) = Some (v, r2)"
        using V(2) [OF last(4)] by blast
      then show ?thesis
        using parse_membersI(2) [OF last(2,3) _ last(5)] last(1,6) m by simp
    qed
    then show ?thesis
      using lk l1 lw l2 l3 last(1) by simp
  qed
  show ?case
    using for_value for_elements for_members by blast
qed

text \<open>
  So the bound that \<open>JSON_parse\<close> gives is enough: whatever a larger bound parses, it parses
  with the same result.
\<close>

lemma JSON_parse_bound_enough:
  assumes "parse_value n (skip_ws s) = Some (v, rest)" and "skip_ws rest = []"
  shows "JSON_parse s = Some v"
proof -
  have "length (skip_ws s) - length rest \<le> Suc (length s)"
    using skip_ws_length [of s] by simp
  then have "parse_value (Suc (length s)) (skip_ws s) = Some (v, rest)"
    using parse_fuel_main [of n] assms(1) by blast
  then show ?thesis
    using assms(2) by (simp add: JSON_parse_def)
qed


end
